theory Spec2Isabelle
  imports Main "HOL-Library.Log_Nat" "HOL-Library.Word" "HOL-Library.Sublist"
begin

section \<open>The ASCII video player of serika-cli (src/index.js, playVideoAscii)\<close>

text \<open>
  The development embeds the ASCII pipeline of \<^verbatim>\<open>playVideoAscii\<close>: the settings-derived
  constants (glyph ramp, height, frame size), the frame renderer, the frame assembler with its
  bounded queue, and the callbacks that the host's event loop invokes (decoder output, key
  press, decoder error and exit, scheduled render steps, the resolve timer), together with
  the audio player's error event, for which the program installs no callback. The width is a
  positive integer taken from the settings; the session starts where the two subprocesses
  have been spawned (the early return for an unsupported Windows terminal is outside it).
\<close>

subsection \<open>JavaScript numbers\<close>

text \<open>
  A JavaScript number is an IEEE-754 double. A finite double is represented by the rational
  it denotes; \<open>fl\<close> rounds a rational to the nearest double (53 significant bits, ties to the
  even significand). Overflow and subnormal numbers are not modelled: every quantity of the
  pipeline is zero or lies between \<open>2 powi (-10)\<close> and \<open>2 powi 1023\<close> in magnitude.
\<close>

definition rne :: "rat \<Rightarrow> int" where
  "rne x = (let f = \<lfloor>x\<rfloor>; d = x - of_int f in
            if d < 1 / 2 then f else if 1 / 2 < d then f + 1
            else if even f then f else f + 1)"

text \<open>For \<open>0 < x\<close>, \<open>expo x\<close> is the binary exponent: \<open>2 powi expo x \<le> x < 2 powi (expo x + 1)\<close>.\<close>

definition expo :: "rat \<Rightarrow> int" where
  "expo x = (if 1 \<le> x then bitlen \<lfloor>x\<rfloor> - 1 else - bitlen (\<lceil>1 / x\<rceil> - 1))"

definition fl :: "rat \<Rightarrow> rat" where
  "fl x = (if x = 0 then 0 else
            let u = 2 powi (expo \<bar>x\<bar> - 52) in of_int (rne (x / u)) * u)"

definition jsadd :: "rat \<Rightarrow> rat \<Rightarrow> rat" where
  "jsadd a b = fl (a + b)"

definition jssub :: "rat \<Rightarrow> rat \<Rightarrow> rat" where
  "jssub a b = fl (a - b)"

definition jsmul :: "rat \<Rightarrow> rat \<Rightarrow> rat" where
  "jsmul a b = fl (a * b)"

definition jsdiv :: "rat \<Rightarrow> rat \<Rightarrow> rat" where
  "jsdiv a b = fl (a / b)"

subsection \<open>Strings and bytes\<close>

text \<open>
  A JavaScript string is a sequence of UTF-16 code units; \<^verbatim>\<open>.length\<close> and indexing count
  code units. A \<^verbatim>\<open>Buffer\<close> is a sequence of bytes.
\<close>

type_synonym jsstring = "16 word list"

type_synonym byte = "8 word"

definition str :: "string \<Rightarrow> jsstring" where
  "str s = map of_char s"

definition ESC :: "16 word" where
  "ESC = 0x1B"

definition newline :: "16 word" where
  "newline = 0x0A"

text \<open>The text of a non-negative integer inside a template literal: its decimal digits.\<close>

definition digit :: "nat \<Rightarrow> 16 word" where
  "digit d = of_nat (48 + d)"

function numToString :: "nat \<Rightarrow> jsstring" where
  "numToString n = (if n < 10 then [digit n] else numToString (n div 10) @ [digit (n mod 10)])"
  by pat_completeness auto
termination
  by (relation "measure id") auto

declare numToString.simps [simp del]

text \<open>Reading a decimal text back, used to state that the printed colour components are exact.\<close>

definition decimalValue :: "jsstring \<Rightarrow> nat" where
  "decimalValue ds = foldl (\<lambda>acc d. 10 * acc + (unat d - 48)) 0 ds"

subsection \<open>Settings-derived constants\<close>

text \<open>
  \<^verbatim>\<open>const CHARSETS = { standard: ' .:-=+*#%@', simple: ' .:+@', blocks: ..., solid: ... }\<close>.
  The last two ramps use the block elements U+2591, U+2592, U+2593 and U+2588.
\<close>

definition standard :: jsstring where
  "standard = str '' .:-=+*#%@''"

definition simple :: jsstring where
  "simple = str '' .:+@''"

definition blocks :: jsstring where
  "blocks = [0x20, 0x2591, 0x2592, 0x2593, 0x2588]"

definition solid :: jsstring where
  "solid = [0x2588]"

definition CHARSETS :: "(string \<times> jsstring) list" where
  "CHARSETS = [(''standard'', standard), (''simple'', simple), (''blocks'', blocks), (''solid'', solid)]"

text \<open>
  \<^verbatim>\<open>CHARSETS\<close> is an object literal, so the property read \<^verbatim>\<open>CHARSETS[charsetName]\<close> also
  finds the properties that every object inherits from \<^verbatim>\<open>Object.prototype\<close>: built-in
  functions and, under \<^verbatim>\<open>__proto__\<close>, the prototype object itself. Those values are not
  strings, and all of them are truthy.
\<close>

definition Object_prototype_keys :: "string list" where
  "Object_prototype_keys =
     [''constructor'', ''hasOwnProperty'', ''isPrototypeOf'', ''propertyIsEnumerable'',
      ''toLocaleString'', ''toString'', ''valueOf'', ''__defineGetter__'', ''__defineSetter__'',
      ''__lookupGetter__'', ''__lookupSetter__'', ''__proto__'']"

datatype jsvalue = Undefined | String jsstring | Inherited

definition getProperty :: "string option \<Rightarrow> jsvalue" where
  "getProperty charsetName =
     (case charsetName of
        None \<Rightarrow> Undefined
      | Some name \<Rightarrow>
          (case map_of CHARSETS name of
             Some ramp \<Rightarrow> String ramp
           | None \<Rightarrow> if name \<in> set Object_prototype_keys then Inherited else Undefined))"

definition truthy :: "jsvalue \<Rightarrow> bool" where
  "truthy v = (case v of Undefined \<Rightarrow> False | String s \<Rightarrow> s \<noteq> [] | Inherited \<Rightarrow> True)"

text \<open>\<^verbatim>\<open>const chars = CHARSETS[charsetName] || CHARSETS.standard;\<close>
  The setting is a piece of text, or is missing (\<open>None\<close>).\<close>

definition selectChars :: "string option \<Rightarrow> jsvalue" where
  "selectChars charsetName =
     (let v = getProperty charsetName in if truthy v then v else String standard)"

text \<open>\<^verbatim>\<open>const height = Math.floor(width * (9 / 16) * 0.55);\<close>\<close>

definition height_of :: "int \<Rightarrow> int" where
  "height_of width = \<lfloor>jsmul (jsmul (of_int width) (jsdiv 9 16)) (fl (55 / 100))\<rfloor>"

text \<open>\<^verbatim>\<open>const frameSize = width * height * 3;\<close>\<close>

definition frameSize_of :: "int \<Rightarrow> int \<Rightarrow> nat" where
  "frameSize_of width height = nat \<lfloor>jsmul (jsmul (of_int width) (of_int height)) 3\<rfloor>"

text \<open>The constants that the callbacks of one playback session close over.\<close>

record config =
  width :: nat
  height :: nat
  frameSize :: nat
  chars :: jsvalue
  isTTY :: bool
  isWindows :: bool

definition playVideoAscii_config :: "nat \<Rightarrow> string option \<Rightarrow> bool \<Rightarrow> bool \<Rightarrow> config" where
  "playVideoAscii_config w charsetName tty win =
     \<lparr>width = w,
      height = nat (height_of (int w)),
      frameSize = frameSize_of (int w) (height_of (int w)),
      chars = selectChars charsetName,
      isTTY = tty,
      isWindows = win\<rparr>"

subsection \<open>The frame renderer\<close>

text \<open>\<^verbatim>\<open>const brightness = (r + g + b) / 3;\<close>\<close>

definition brightness :: "byte \<Rightarrow> byte \<Rightarrow> byte \<Rightarrow> rat" where
  "brightness r g b = jsdiv (jsadd (jsadd (of_nat (unat r)) (of_nat (unat g))) (of_nat (unat b))) 3"

text \<open>\<^verbatim>\<open>const charIndex = Math.floor((brightness / 255) * (chars.length - 1));\<close>
  for a ramp of \<open>len\<close> code units.\<close>

definition charIndex :: "rat \<Rightarrow> nat \<Rightarrow> int" where
  "charIndex br len = \<lfloor>jsmul (jsdiv br 255) (jssub (of_nat len) 1)\<rfloor>"

text \<open>Indexing a buffer or a string out of range gives \<^verbatim>\<open>undefined\<close> (\<open>None\<close>).\<close>

definition byteAt :: "byte list \<Rightarrow> nat \<Rightarrow> byte option" where
  "byteAt frame i = (if i < length frame then Some (frame ! i) else None)"

definition charAt :: "jsstring \<Rightarrow> int \<Rightarrow> 16 word option" where
  "charAt s i = (if 0 \<le> i \<and> nat i < length s then Some (s ! nat i) else None)"

text \<open>
  The glyph of one pixel. With a byte missing the sum is \<^verbatim>\<open>NaN\<close> and the lookup gives
  \<^verbatim>\<open>undefined\<close>; a value of \<^verbatim>\<open>chars\<close> that is not a string has no indexed property, so
  there the lookup gives \<^verbatim>\<open>undefined\<close> whatever the index.
\<close>

definition glyph :: "jsvalue \<Rightarrow> byte option \<Rightarrow> byte option \<Rightarrow> byte option \<Rightarrow> 16 word option" where
  "glyph cs r g b =
     (case (cs, r, g, b) of
        (String ramp, Some r', Some g', Some b') \<Rightarrow>
          charAt ramp (charIndex (brightness r' g' b') (length ramp))
      | _ \<Rightarrow> None)"

definition showByte :: "byte option \<Rightarrow> jsstring" where
  "showByte v = (case v of None \<Rightarrow> str ''undefined'' | Some x \<Rightarrow> numToString (unat x))"

definition showChar :: "16 word option \<Rightarrow> jsstring" where
  "showChar v = (case v of None \<Rightarrow> str ''undefined'' | Some c \<Rightarrow> [c])"

text \<open>The body of the inner loop: the text appended for the pixel at \<open>offset\<close>.\<close>

definition renderPixel :: "jsvalue \<Rightarrow> byte list \<Rightarrow> nat \<Rightarrow> jsstring" where
  "renderPixel cs frame offset =
     (let r = byteAt frame offset;
          g = byteAt frame (offset + 1);
          b = byteAt frame (offset + 2);
          char = glyph cs r g b
      in ESC # str ''[38;2;'' @ showByte r @ str '';'' @ showByte g @ str '';'' @ showByte b
           @ str ''m'' @ showChar char)"

function xLoop :: "config \<Rightarrow> byte list \<Rightarrow> nat \<Rightarrow> nat \<Rightarrow> jsstring \<Rightarrow> jsstring" where
  "xLoop cfg frame y x output =
     (if x < width cfg
      then xLoop cfg frame y (x + 1)
             (output @ renderPixel (chars cfg) frame ((y * width cfg + x) * 3))
      else output)"
  by pat_completeness auto
termination
  by (relation "measure (\<lambda>(cfg, frame, y, x, output). width cfg - x)") auto

declare xLoop.simps [simp del]

function yLoop :: "config \<Rightarrow> byte list \<Rightarrow> nat \<Rightarrow> jsstring \<Rightarrow> jsstring" where
  "yLoop cfg frame y output =
     (if y < height cfg
      then yLoop cfg frame (y + 1) (xLoop cfg frame y 0 output @ [newline])
      else output)"
  by pat_completeness auto
termination
  by (relation "measure (\<lambda>(cfg, frame, y, output). height cfg - y)") auto

declare yLoop.simps [simp del]

definition cursorHome :: jsstring where
  "cursorHome = ESC # str ''[H''"

definition colorReset :: jsstring where
  "colorReset = ESC # str ''[0m''"

definition hideCursor :: jsstring where
  "hideCursor = ESC # str ''[?25l''"

definition showCursor :: jsstring where
  "showCursor = ESC # str ''[?25h''"

text \<open>The text that \<^verbatim>\<open>renderFrame\<close> builds in \<^verbatim>\<open>output\<close> and writes.\<close>

definition renderText :: "config \<Rightarrow> byte list \<Rightarrow> jsstring" where
  "renderText cfg frame = yLoop cfg frame 0 cursorHome @ colorReset"

text \<open>
  The cell that the specification describes for a pixel: the 24-bit colour escape with the
  decimal components, then the glyph of the ramp at the computed index.
\<close>

definition colorCell :: "jsstring \<Rightarrow> byte \<Rightarrow> byte \<Rightarrow> byte \<Rightarrow> jsstring" where
  "colorCell ramp r g b =
     ESC # str ''[38;2;'' @ numToString (unat r) @ str '';'' @ numToString (unat g) @ str '';''
       @ numToString (unat b) @ str ''m''
       @ [ramp ! nat (charIndex (brightness r g b) (length ramp))]"

subsection \<open>The playback session\<close>

datatype process = Ffmpeg | AudioPlayer

text \<open>The effects of the session on the terminal, on standard input and on the subprocesses.\<close>

datatype effect =
    ConsoleClear
  | StdoutWrite jsstring
  | SetRawMode bool
  | StdinResume
  | StdinPause
  | RemoveKeyListener
  | Kill process
  | LogDecoderNotFound
  | LogInstallHint

text \<open>
  The mutable variables of the closure, the \<^verbatim>\<open>killed\<close> flag of each subprocess (set by
  \<^verbatim>\<open>kill()\<close>), whether \<^verbatim>\<open>onKeyPress\<close> is attached to standard input, the callbacks
  pending in the event loop, and whether the promise is resolved. Two fields are history
  variables that the program never reads: \<open>assembled\<close> lists every frame the assembler has
  pushed, and \<open>out\<close> lists the effects performed, both oldest first.
\<close>

record session =
  buffer :: "byte list"
  firstFrame :: bool
  frameCount :: nat
  frameQueue :: "byte list list"
  isProcessing :: bool
  cleanedUp :: bool
  ffmpegKilled :: bool
  audioKilled :: bool
  keyListener :: bool
  immediates :: nat
  timers :: nat
  resolved :: bool
  assembled :: "byte list list"
  out :: "effect list"

text \<open>The state when \<^verbatim>\<open>playVideoAscii\<close> has installed its callbacks.\<close>

definition init :: "config \<Rightarrow> session" where
  "init cfg =
     \<lparr>buffer = [], firstFrame = True, frameCount = 0, frameQueue = [], isProcessing = False,
      cleanedUp = False, ffmpegKilled = False, audioKilled = False, keyListener = isTTY cfg,
      immediates = 0, timers = 0, resolved = False, assembled = [],
      out = (if isTTY cfg then [SetRawMode True, StdinResume] else [])\<rparr>"

text \<open>Performing effects appends them to the history.\<close>

definition emit :: "effect list \<Rightarrow> session \<Rightarrow> session" where
  "emit es s = s\<lparr>out := out s @ es\<rparr>"

text \<open>
  \<^verbatim>\<open>renderFrame\<close>: on the first frame \<^verbatim>\<open>console.clear()\<close>, the write of \<^verbatim>\<open>ESC[?25l\<close> and
  \<^verbatim>\<open>firstFrame = false\<close>; then the write of the frame text and \<^verbatim>\<open>frameCount++\<close>.
\<close>

definition renderFrame :: "config \<Rightarrow> byte list \<Rightarrow> session \<Rightarrow> session" where
  "renderFrame cfg frame s =
     (let s1 = (if firstFrame s
                then (emit [ConsoleClear, StdoutWrite hideCursor] s)\<lparr>firstFrame := False\<rparr>
                else s);
          s2 = emit [StdoutWrite (renderText cfg frame)] s1
      in s2\<lparr>frameCount := frameCount s2 + 1\<rparr>)"

text \<open>
  \<^verbatim>\<open>processNextFrame\<close>: return if a render is in flight or the queue is empty; otherwise
  \<^verbatim>\<open>frameQueue.shift()\<close>, render that frame, and \<^verbatim>\<open>setImmediate(processNextFrame)\<close> if
  frames remain.
\<close>

definition processNextFrame :: "config \<Rightarrow> session \<Rightarrow> session" where
  "processNextFrame cfg s =
     (if isProcessing s \<or> frameQueue s = [] then s
      else
        let s1 = s\<lparr>isProcessing := True\<rparr>;
            frame = hd (frameQueue s1);
            s2 = s1\<lparr>frameQueue := tl (frameQueue s1)\<rparr>;
            s3 = renderFrame cfg frame s2;
            s4 = s3\<lparr>isProcessing := False\<rparr>
        in if frameQueue s4 \<noteq> [] then s4\<lparr>immediates := immediates s4 + 1\<rparr> else s4)"

text \<open>\<^verbatim>\<open>frameQueue.push(frame); if (frameQueue.length > 30) frameQueue.shift();\<close>
  Between the push and the shift the array has 31 elements; no other code runs there.\<close>

definition enqueue :: "byte list list \<Rightarrow> byte list \<Rightarrow> byte list list" where
  "enqueue q frame = (let q' = q @ [frame] in if 30 < length q' then tl q' else q')"

text \<open>
  The \<^verbatim>\<open>while (buffer.length >= frameSize)\<close> loop of the data callback. With
  \<open>frameSize = 0\<close> its condition never fails; not returning is the value \<open>None\<close> here and
  \<open>NeverReturns\<close> for the callback.
\<close>

partial_function (option) assembleLoop :: "nat \<Rightarrow> session \<Rightarrow> session option" where
  "assembleLoop fs s =
     (if fs \<le> length (buffer s)
      then assembleLoop fs
             (s\<lparr>buffer := drop fs (buffer s),
               frameQueue := enqueue (frameQueue s) (take fs (buffer s)),
               assembled := assembled s @ [take fs (buffer s)]\<rparr>)
      else Some s)"

declare assembleLoop.simps [code]

text \<open>
  How a callback can fail to hand control back to the event loop: its loop never exits, or an
  exception that nothing catches ends the process. In both cases the promise stays unresolved
  and no later callback runs.
\<close>

datatype failure = NeverReturns | UncaughtException

text \<open>
  The \<^verbatim>\<open>data\<close> callback of the decoder's output: \<^verbatim>\<open>buffer = Buffer.concat([buffer, chunk])\<close>,
  the loop, then \<^verbatim>\<open>if (!isProcessing) processNextFrame()\<close>.
\<close>

definition onData :: "config \<Rightarrow> byte list \<Rightarrow> session \<Rightarrow> failure + session" where
  "onData cfg chunk s =
     (case assembleLoop (frameSize cfg) (s\<lparr>buffer := buffer s @ chunk\<rparr>) of
        None \<Rightarrow> Inl NeverReturns
      | Some s1 \<Rightarrow> Inr (if \<not> isProcessing s1 then processNextFrame cfg s1 else s1))"

text \<open>
  \<^verbatim>\<open>cleanup\<close>: guarded by \<^verbatim>\<open>cleanedUp\<close>; on a TTY \<^verbatim>\<open>setRawMode(false)\<close> and \<^verbatim>\<open>pause()\<close>;
  \<^verbatim>\<open>removeListener('data', onKeyPress)\<close>; \<^verbatim>\<open>kill()\<close> for each subprocess whose \<^verbatim>\<open>killed\<close>
  flag is not set; the write of \<^verbatim>\<open>ESC[?25h\<close>; \<^verbatim>\<open>console.clear()\<close>.
\<close>

definition cleanup :: "config \<Rightarrow> session \<Rightarrow> session" where
  "cleanup cfg s =
     (if cleanedUp s then s
      else
        let s1 = s\<lparr>cleanedUp := True\<rparr>;
            s2 = (if isTTY cfg then emit [SetRawMode False, StdinPause] s1 else s1);
            s3 = (emit [RemoveKeyListener] s2)\<lparr>keyListener := False\<rparr>;
            s4 = (if \<not> ffmpegKilled s3 then (emit [Kill Ffmpeg] s3)\<lparr>ffmpegKilled := True\<rparr> else s3);
            s5 = (if \<not> audioKilled s4 then (emit [Kill AudioPlayer] s4)\<lparr>audioKilled := True\<rparr> else s4)
        in emit [StdoutWrite showCursor, ConsoleClear] s5)"

text \<open>
  \<^verbatim>\<open>key[0] === 0x03 || key.toString().toLowerCase() === 'q'\<close>. The chunk is decoded as
  UTF-8: a byte below 0x80 is the character of that code, and a chunk with a byte from 0x80 on
  decodes to text with a character outside ASCII, which no lower-casing turns into \<^verbatim>\<open>q\<close>.
\<close>

definition toLowerCase :: "byte \<Rightarrow> byte" where
  "toLowerCase c = (if 0x41 \<le> c \<and> c \<le> 0x5A then c + 0x20 else c)"

definition isCancelKey :: "byte list \<Rightarrow> bool" where
  "isCancelKey key = (byteAt key 0 = Some 0x03 \<or> map toLowerCase key = [0x71])"

definition resolve :: "session \<Rightarrow> session" where
  "resolve s = s\<lparr>resolved := True\<rparr>"

text \<open>\<^verbatim>\<open>cleanup(); setTimeout(() => resolve(), 100);\<close>\<close>

definition onKeyPress :: "config \<Rightarrow> byte list \<Rightarrow> session \<Rightarrow> session" where
  "onKeyPress cfg key s =
     (if isCancelKey key then (cleanup cfg s)\<lparr>timers := timers (cleanup cfg s) + 1\<rparr> else s)"

text \<open>
  The decoder's \<^verbatim>\<open>error\<close> callback (a message when the code is \<^verbatim>\<open>ENOENT\<close>, with an install
  hint on Windows) and its \<^verbatim>\<open>close\<close> callback: both \<^verbatim>\<open>cleanup(); resolve();\<close>.
\<close>

definition onError :: "config \<Rightarrow> bool \<Rightarrow> session \<Rightarrow> session" where
  "onError cfg enoent s =
     (let s1 = (if enoent
                then emit (LogDecoderNotFound # (if isWindows cfg then [LogInstallHint] else [])) s
                else s)
      in resolve (cleanup cfg s1))"

definition onClose :: "config \<Rightarrow> session \<Rightarrow> session" where
  "onClose cfg s = resolve (cleanup cfg s)"

text \<open>
  What the event loop may invoke: a chunk of decoder output, a chunk of key presses (delivered
  only while the listener is attached), the decoder's \<^verbatim>\<open>error\<close> event (with whether its
  code is \<^verbatim>\<open>ENOENT\<close>) and \<^verbatim>\<open>close\<close> event, the audio player's \<^verbatim>\<open>error\<close> event, a
  pending \<^verbatim>\<open>setImmediate\<close> callback, and the pending 100 ms timer.

  The audio player is spawned with no listener at all
  (\<^verbatim>\<open>const audioPlayer = spawn(audioPlayerCmd, [...], { stdio: 'ignore' })\<close>), and an
  \<^verbatim>\<open>error\<close> event emitted on an object without a listener for it is thrown; nothing in
  the program catches it.
\<close>

datatype event =
    Data "byte list"
  | KeyPress "byte list"
  | FfmpegError bool
  | FfmpegClose
  | AudioError
  | Immediate
  | Timeout

definition dispatch :: "config \<Rightarrow> event \<Rightarrow> session \<Rightarrow> failure + session" where
  "dispatch cfg ev s =
     (case ev of
        Data chunk \<Rightarrow> onData cfg chunk s
      | KeyPress key \<Rightarrow> Inr (if keyListener s then onKeyPress cfg key s else s)
      | FfmpegError enoent \<Rightarrow> Inr (onError cfg enoent s)
      | FfmpegClose \<Rightarrow> Inr (onClose cfg s)
      | AudioError \<Rightarrow> Inl UncaughtException
      | Immediate \<Rightarrow>
          Inr (if 0 < immediates s
               then processNextFrame cfg (s\<lparr>immediates := immediates s - 1\<rparr>) else s)
      | Timeout \<Rightarrow>
          Inr (if 0 < timers s then resolve (s\<lparr>timers := timers s - 1\<rparr>) else s))"

text \<open>
  A session: the callbacks invoked one after the other, each running to completion; a
  failure ends it.
\<close>

fun run :: "config \<Rightarrow> event list \<Rightarrow> session \<Rightarrow> failure + session" where
  "run cfg [] s = Inr s"
| "run cfg (ev # evs) s =
     (case dispatch cfg ev s of Inl e \<Rightarrow> Inl e | Inr s' \<Rightarrow> run cfg evs s')"


subsection \<open>Notions used in the statements\<close>

text \<open>
  For stating what the assembler does: the consecutive whole slices of \<open>fs\<close> bytes of a
  byte sequence, in order, and the bytes that the decoder has delivered in a sequence of
  events.
\<close>

definition slices :: "nat \<Rightarrow> byte list \<Rightarrow> byte list list" where
  "slices fs bytes = map (\<lambda>i. take fs (drop (i * fs) bytes)) [0..<length bytes div fs]"

fun dataOf :: "event list \<Rightarrow> byte list" where
  "dataOf [] = []"
| "dataOf (Data chunk # evs) = chunk @ dataOf evs"
| "dataOf (ev # evs) = dataOf evs"

text \<open>
  The bookkeeping of the effects performed so far, kept by every callback: the teardown
  effects have occurred once if the guard is set and never otherwise, and the renderer's
  setup effects have occurred once if a frame has been rendered and never otherwise (the
  teardown clears the screen once more).
\<close>

definition effects_inv :: "session \<Rightarrow> bool" where
  "effects_inv s \<longleftrightarrow>
     count_list (out s) (Kill Ffmpeg) = (if cleanedUp s then 1 else 0) \<and>
     count_list (out s) (Kill AudioPlayer) = (if cleanedUp s then 1 else 0) \<and>
     count_list (out s) (StdoutWrite showCursor) = (if cleanedUp s then 1 else 0) \<and>
     count_list (out s) RemoveKeyListener = (if cleanedUp s then 1 else 0) \<and>
     count_list (out s) (StdoutWrite hideCursor) = (if firstFrame s then 0 else 1) \<and>
     count_list (out s) ConsoleClear =
       (if firstFrame s then 0 else 1) + (if cleanedUp s then 1 else 0) \<and>
     ffmpegKilled s = cleanedUp s \<and> audioKilled s = cleanedUp s \<and>
     firstFrame s = (frameCount s = 0) \<and>
     (cleanedUp s \<longrightarrow> \<not> keyListener s) \<and>
     (0 < timers s \<or> resolved s \<longrightarrow> cleanedUp s)"

text \<open>The decoder's \<^verbatim>\<open>error\<close> and \<^verbatim>\<open>close\<close> events.\<close>

definition isDecoderEnd :: "event \<Rightarrow> bool" where
  "isDecoderEnd ev = (case ev of FfmpegError enoent \<Rightarrow> True | FfmpegClose \<Rightarrow> True | _ \<Rightarrow> False)"

text \<open>
  Between callbacks every assembled frame has \<open>fs\<close> bytes, fewer than \<open>fs\<close> bytes are
  pending, and the queue holds assembled frames only.
\<close>

definition assembler_inv :: "nat \<Rightarrow> session \<Rightarrow> bool" where
  "assembler_inv fs s \<longleftrightarrow>
     list_all (\<lambda>f. length f = fs) (assembled s) \<and> length (buffer s) < fs \<and>
     list_all (\<lambda>f. f \<in> set (assembled s)) (frameQueue s)"

text \<open>The last \<open>n\<close> elements of a list, or all of it if it has fewer.\<close>

definition newest :: "nat \<Rightarrow> 'a list \<Rightarrow> 'a list" where
  "newest n xs = drop (length xs - n) xs"

text \<open>
  Between callbacks no render is in flight, the queue has at most 30 frames, and the queue is
  a tail of the sequence of assembled frames.
\<close>

definition queue_inv :: "session \<Rightarrow> bool" where
  "queue_inv s \<longleftrightarrow>
     \<not> isProcessing s \<and> length (frameQueue s) \<le> 30 \<and> suffix (frameQueue s) (assembled s)"

section \<open>Properties of the rounding function\<close>

lemma rne_of_int: "rne (of_int n) = n"
  by (simp add: rne_def)

lemma rne_range: "rne x = \<lfloor>x\<rfloor> \<or> rne x = \<lfloor>x\<rfloor> + 1"
  by (simp add: rne_def Let_def)

lemma rne_mono: "x \<le> y \<Longrightarrow> rne x \<le> rne y"
proof -
  assume xy: "x \<le> y"
  have fxy: "\<lfloor>x\<rfloor> \<le> \<lfloor>y\<rfloor>" using xy by (rule floor_mono)
  show ?thesis
  proof (cases "\<lfloor>x\<rfloor> = \<lfloor>y\<rfloor>")
    case True
    then show ?thesis using xy by (auto simp: rne_def Let_def)
  next
    case False
    then have "\<lfloor>x\<rfloor> + 1 \<le> \<lfloor>y\<rfloor>" using fxy by simp
    moreover have "rne x \<le> \<lfloor>x\<rfloor> + 1" using rne_range [of x] by auto
    moreover have "\<lfloor>y\<rfloor> \<le> rne y" using rne_range [of y] by auto
    ultimately show ?thesis by linarith
  qed
qed

lemma pow2_less_iff: "(2::rat) powi a < 2 powi b \<longleftrightarrow> a < b"
proof
  assume h: "(2::rat) powi a < 2 powi b"
  show "a < b"
  proof (rule ccontr)
    assume "\<not> a < b"
    then have "b \<le> a" by simp
    then have "(2::rat) powi b \<le> 2 powi a" by (rule power_int_increasing) simp
    with h show False by simp
  qed
next
  assume "a < b"
  then show "(2::rat) powi a < 2 powi b" by (rule power_int_strict_increasing) simp
qed

lemma pow2_le_iff: "(2::rat) powi a \<le> 2 powi b \<longleftrightarrow> a \<le> b"
  using pow2_less_iff [of b a] by (simp add: not_less [symmetric])

lemma expo_lower: assumes "0 < x" shows "2 powi expo x \<le> x"
proof (cases "1 \<le> x")
  case True
  define n where "n = \<lfloor>x\<rfloor>"
  have n1: "0 < n" using True by (simp add: n_def)
  have b: "2 ^ nat (bitlen n - 1) \<le> n" using bitlen_bounds [OF n1] by simp
  have b1: "1 \<le> bitlen n" using n1 by (simp add: bitlen_alt_def)
  have "(2::rat) powi (bitlen n - 1) = 2 ^ nat (bitlen n - 1)"
    using b1 by (simp add: power_int_def)
  also have "\<dots> = of_int (2 ^ nat (bitlen n - 1))" by simp
  also have "\<dots> \<le> of_int n" using b by (simp only: of_int_le_iff)
  also have "\<dots> \<le> x" by (simp add: n_def)
  finally show ?thesis using True by (simp add: expo_def n_def)
next
  case False
  define m where "m = \<lceil>1 / x\<rceil> - 1"
  have t: "1 < 1 / x" using False assms by simp
  have m1: "0 < m" using t by (simp add: m_def less_ceiling_iff)
  have ub: "1 / x \<le> of_int (m + 1)" by (simp add: m_def le_of_int_ceiling)
  have b: "m < 2 ^ nat (bitlen m)" using bitlen_bounds [OF m1] by simp
  then have "m + 1 \<le> 2 ^ nat (bitlen m)" by simp
  then have "(of_int (m + 1) :: rat) \<le> of_int (2 ^ nat (bitlen m))" by (simp only: of_int_le_iff)
  then have "1 / x \<le> 2 ^ nat (bitlen m)" using ub by simp
  then have "1 / 2 ^ nat (bitlen m) \<le> x" using assms
    by (simp add: field_simps)
  moreover have "(2::rat) powi (- bitlen m) = 1 / 2 ^ nat (bitlen m)"
    using bitlen_nonneg [of m] by (simp add: power_int_def field_simps)
  ultimately show ?thesis using False by (simp add: expo_def m_def)
qed

lemma expo_upper: assumes "0 < x" shows "x < 2 powi (expo x + 1)"
proof (cases "1 \<le> x")
  case True
  define n where "n = \<lfloor>x\<rfloor>"
  have n1: "0 < n" using True by (simp add: n_def)
  have b: "n < 2 ^ nat (bitlen n)" using bitlen_bounds [OF n1] by simp
  then have "n + 1 \<le> 2 ^ nat (bitlen n)" by simp
  then have "(of_int (n + 1) :: rat) \<le> of_int (2 ^ nat (bitlen n))" by (simp only: of_int_le_iff)
  moreover have "x < of_int (n + 1)" unfolding n_def by linarith
  ultimately have "x < 2 ^ nat (bitlen n)" by simp
  moreover have "(2::rat) powi (bitlen n) = 2 ^ nat (bitlen n)"
    using bitlen_nonneg [of n] by (simp add: power_int_def)
  ultimately show ?thesis using True by (simp add: expo_def n_def)
next
  case False
  define m where "m = \<lceil>1 / x\<rceil> - 1"
  have t: "1 < 1 / x" using False assms by simp
  have m1: "0 < m" using t by (simp add: m_def less_ceiling_iff)
  have b1: "1 \<le> bitlen m" using m1 by (simp add: bitlen_alt_def)
  have lb: "of_int m < 1 / x" unfolding m_def by linarith
  have b: "2 ^ nat (bitlen m - 1) \<le> m" using bitlen_bounds [OF m1] by simp
  then have "(2::rat) ^ nat (bitlen m - 1) \<le> of_int m" by simp
  then have "2 ^ nat (bitlen m - 1) < 1 / x" using lb by linarith
  then have "x < 1 / 2 ^ nat (bitlen m - 1)" using assms
    by (simp add: field_simps)
  moreover have "(2::rat) powi (- bitlen m + 1) = 1 / 2 ^ nat (bitlen m - 1)"
    using b1 by (simp add: power_int_def field_simps nat_diff_distrib)
  ultimately show ?thesis using False by (simp add: expo_def m_def)
qed


lemma expo_unique:
  assumes "0 < x" "2 powi e \<le> x" "x < 2 powi (e + 1)"
  shows "expo x = e"
proof -
  have "(2::rat) powi e < 2 powi (expo x + 1)"
    using assms(2) expo_upper [OF assms(1)] by linarith
  then have a: "e < expo x + 1" by (simp only: pow2_less_iff)
  have "(2::rat) powi expo x < 2 powi (e + 1)"
    using assms(3) expo_lower [OF assms(1)] by linarith
  then have "expo x < e + 1" by (simp only: pow2_less_iff)
  with a show ?thesis by simp
qed

lemma expo_mono: assumes "0 < x" "x \<le> y" shows "expo x \<le> expo y"
proof -
  have "0 < y" using assms by simp
  have "(2::rat) powi expo x < 2 powi (expo y + 1)"
    using expo_lower [OF assms(1)] expo_upper [OF \<open>0 < y\<close>] assms(2) by linarith
  then show ?thesis by (simp only: pow2_less_iff)
qed

lemma fl_pos_eq: "0 < x \<Longrightarrow> fl x = of_int (rne (x / 2 powi (expo x - 52))) * 2 powi (expo x - 52)"
  by (simp add: fl_def Let_def)

lemma fl_lower: assumes "0 < x" shows "2 powi expo x \<le> fl x"
proof -
  define u :: rat where "u = 2 powi (expo x - 52)"
  have u0: "0 < u" by (simp add: u_def)
  have "2 powi expo x = (2::rat) powi 52 * u"
    unfolding u_def by (simp add: power_int_diff)
  then have e: "2 powi expo x / u = 2 ^ 52" using u0 by simp
  have "2 powi expo x / u \<le> x / u"
    using expo_lower [OF assms] u0 by (simp add: divide_right_mono)
  then have "of_int (2 ^ 52) \<le> x / u" using e by simp
  then have "rne (of_int (2 ^ 52)) \<le> rne (x / u)" by (rule rne_mono)
  then have "2 ^ 52 \<le> rne (x / u)" by (simp only: rne_of_int)
  then have "(of_int (2 ^ 52) :: rat) \<le> of_int (rne (x / u))" by (simp only: of_int_le_iff)
  then have A: "of_int (2 ^ 52) * u \<le> of_int (rne (x / u)) * u"
    using u0 by (simp only: mult_le_cancel_right_pos)
  have B: "of_int (2 ^ 52) * u = 2 powi expo x"
    unfolding u_def by (simp add: power_int_diff)
  have C: "fl x = of_int (rne (x / u)) * u"
    unfolding u_def using assms by (rule fl_pos_eq)
  from A show ?thesis unfolding B C .
qed

lemma fl_upper: assumes "0 < x" shows "fl x \<le> 2 powi (expo x + 1)"
proof -
  define u :: rat where "u = 2 powi (expo x - 52)"
  have u0: "0 < u" by (simp add: u_def)
  have p: "2 powi (expo x + 1) = (2::rat) ^ 53 * u"
    unfolding u_def by (simp add: power_int_diff power_int_add)
  then have e: "2 powi (expo x + 1) / u = 2 ^ 53" using u0 by simp
  have "x / u \<le> 2 powi (expo x + 1) / u"
    using expo_upper [OF assms] u0 by (simp add: divide_right_mono)
  then have "x / u \<le> of_int (2 ^ 53)" using e by simp
  then have "rne (x / u) \<le> rne (of_int (2 ^ 53))" by (rule rne_mono)
  then have "rne (x / u) \<le> 2 ^ 53" by (simp only: rne_of_int)
  then have "(of_int (rne (x / u)) :: rat) \<le> of_int (2 ^ 53)" by (simp only: of_int_le_iff)
  then have A: "of_int (rne (x / u)) * u \<le> of_int (2 ^ 53) * u"
    using u0 by (simp only: mult_le_cancel_right_pos)
  have B: "of_int (2 ^ 53) * u = 2 powi (expo x + 1)"
    using p by simp
  have C: "fl x = of_int (rne (x / u)) * u"
    unfolding u_def using assms by (rule fl_pos_eq)
  from A show ?thesis unfolding B C .
qed

lemma fl_nonneg: "0 \<le> x \<Longrightarrow> 0 \<le> fl x"
proof (cases "x = 0")
  case True then show ?thesis by (simp add: fl_def)
next
  case False
  assume "0 \<le> x"
  then have "0 < x" using False by simp
  from fl_lower [OF this] have "2 powi expo x \<le> fl x" .
  moreover have "(0::rat) < 2 powi expo x" by simp
  ultimately show ?thesis by linarith
qed

lemma fl_mono: assumes "0 \<le> x" "x \<le> y" shows "fl x \<le> fl y"
proof (cases "x = 0")
  case True
  then show ?thesis using fl_nonneg [of y] assms by (simp add: fl_def)
next
  case False
  then have x0: "0 < x" using assms by simp
  then have y0: "0 < y" using assms by simp
  show ?thesis
  proof (cases "expo x = expo y")
    case True
    define u :: rat where "u = 2 powi (expo x - 52)"
    have u0: "0 < u" by (simp add: u_def)
    have "x / u \<le> y / u" using assms u0 by (simp add: divide_right_mono)
    then have "rne (x / u) \<le> rne (y / u)" by (rule rne_mono)
    then have "(of_int (rne (x / u)) :: rat) \<le> of_int (rne (y / u))" by (simp only: of_int_le_iff)
    then have A: "of_int (rne (x / u)) * u \<le> of_int (rne (y / u)) * u"
      using u0 by (simp only: mult_le_cancel_right_pos)
    have C: "fl x = of_int (rne (x / u)) * u"
      unfolding u_def using x0 by (rule fl_pos_eq)
    have D: "fl y = of_int (rne (y / u)) * u"
      unfolding u_def True using y0 by (rule fl_pos_eq)
    from A show ?thesis unfolding C D .
  next
    case False
    then have "expo x + 1 \<le> expo y" using expo_mono [OF x0 assms(2)] by simp
    then have "(2::rat) powi (expo x + 1) \<le> 2 powi expo y" by (simp only: pow2_le_iff)
    then show ?thesis using fl_upper [OF x0] fl_lower [OF y0] by linarith
  qed
qed

lemma fl_exact:
  assumes "0 < m" "m < 2 ^ 53"
  shows "fl (of_int m * 2 powi k) = of_int m * 2 powi k"
proof -
  define x :: rat where "x = of_int m * 2 powi k"
  have x0: "0 < x" using assms(1) by (simp add: x_def)
  have "(of_int m :: rat) < of_int (2 ^ 53)" using assms(2) by (simp only: of_int_less_iff)
  then have "x < 2 ^ 53 * 2 powi k" by (simp add: x_def)
  also have "\<dots> = 2 powi (53 + k)" by (simp add: power_int_add)
  finally have "2 powi expo x < (2::rat) powi (53 + k)" using expo_lower [OF x0] by linarith
  then have "expo x < 53 + k" by (simp only: pow2_less_iff)
  then have le: "expo x - 52 \<le> k" by simp
  define j where "j = nat (k - (expo x - 52))"
  have j: "k = expo x - 52 + int j" using le by (simp add: j_def)
  define u :: rat where "u = 2 powi (expo x - 52)"
  have u0: "0 < u" by (simp add: u_def)
  have "2 powi k = u * 2 ^ j" unfolding u_def by (subst j) (simp add: power_int_add)
  then have "x / u = of_int (m * 2 ^ j)" using u0 by (simp add: x_def)
  then have "rne (x / u) = m * 2 ^ j" by (simp only: rne_of_int)
  then have "fl x = of_int (m * 2 ^ j) * u" using x0 by (simp add: fl_pos_eq u_def)
  also have "\<dots> = x" using \<open>2 powi k = u * 2 ^ j\<close> by (simp add: x_def)
  finally show ?thesis by (simp add: x_def)
qed


lemma fl_055: "fl (55 / 100) = 2476979795053773 / 4503599627370496"
  by code_simp

lemma fl_of_int: assumes "0 \<le> n" "n < 2 ^ 53" shows "fl (of_int n) = of_int n"
proof (cases "n = 0")
  case True then show ?thesis by (simp add: fl_def)
next
  case False
  then have "0 < n" using assms by simp
  from fl_exact [OF this assms(2), of 0] show ?thesis by simp
qed

lemma jsdiv_9_16: "jsdiv 9 16 = 9 / 16"
proof -
  have "fl (of_int 9 * 2 powi (- 4)) = of_int 9 * 2 powi (- 4)"
    by (rule fl_exact) simp_all
  then show ?thesis by (simp add: jsdiv_def power_int_minus field_simps)
qed

lemma jsmul_w_916:
  assumes "0 < w" "w \<le> 1048576"
  shows "jsmul (of_int w) (9 / 16) = of_int (9 * w) / 16"
proof -
  have "fl (of_int (9 * w) * 2 powi (- 4)) = of_int (9 * w) * 2 powi (- 4)"
    by (rule fl_exact) (use assms in simp_all)
  then show ?thesis by (simp add: jsmul_def power_int_minus field_simps)
qed

lemma height_of_exact:
  assumes "0 < w" "w \<le> 1048576"
  shows "height_of w = (99 * w) div 320"
proof -
  define n where "n = (99 * w) div 320"
  define y :: rat where "y = of_int (9 * w) / 16 * (2476979795053773 / 4503599627370496)"
  have n0: "0 \<le> n" using assms by (simp add: n_def)
  have nb: "n < 2 ^ 40" using assms by (simp add: n_def)
  have dm: "99 * w = 320 * n + (99 * w) mod 320" by (simp add: n_def)
  have r: "(99 * w) mod 320 \<le> 319" "0 \<le> (99 * w) mod 320"
    by (simp_all add: pos_mod_bound [of 320 "99 * w", simplified] zle_diff1_eq [symmetric] del: zle_diff1_eq)
  have yeq: "y = of_int (99 * w) / 320 + of_int (9 * w) / (80 * 2 ^ 52)"
    by (simp add: y_def field_simps)
  have lo: "of_int n \<le> y"
  proof -
    have "320 * n \<le> 99 * w" using dm r by linarith
    then have "(of_int (320 * n) :: rat) \<le> of_int (99 * w)" by (simp only: of_int_le_iff)
    then have "(of_int n :: rat) \<le> of_int (99 * w) / 320" by simp
    moreover have "(0::rat) \<le> of_int (9 * w) / (80 * 2 ^ 52)" using assms by simp
    ultimately show ?thesis unfolding yeq by linarith
  qed
  define z :: rat where "z = of_int (512 * n + 511) * 2 powi (- 9)"
  have zeq: "z = of_int n + 511 / 512" by (simp add: z_def power_int_minus field_simps)
  have hi: "y \<le> z"
  proof -
    have "99 * w \<le> 320 * n + 319" using dm r by linarith
    then have "(of_int (99 * w) :: rat) \<le> of_int (320 * n + 319)" by (simp only: of_int_le_iff)
    then have a: "(of_int (99 * w) :: rat) / 320 \<le> of_int n + 319 / 320" by simp
    have "9 * w \<le> 9 * 1048576" using assms by simp
    then have "(of_int (9 * w) :: rat) \<le> of_int (9 * 1048576)" by (simp only: of_int_le_iff)
    then have b: "(of_int (9 * w) :: rat) / (80 * 2 ^ 52) \<le> 1 / 2560" by simp
    show ?thesis unfolding yeq zeq using a b by linarith
  qed
  have y0: "0 \<le> y" using lo n0 by (meson of_int_0_le_iff order_trans)
  have flz: "fl z = z" unfolding z_def by (rule fl_exact) (use n0 nb in simp_all)
  have "of_int n \<le> fl y"
    using fl_mono [of "of_int n" y] lo n0 nb fl_of_int [of n] by simp
  moreover have "fl y < of_int n + 1"
    using fl_mono [OF y0 hi] flz zeq by linarith
  ultimately have "\<lfloor>fl y\<rfloor> = n" by (simp add: floor_unique)
  moreover have "height_of w = \<lfloor>jsmul (jsmul (of_int w) (9 / 16)) (fl (55 / 100))\<rfloor>"
    by (simp only: height_of_def jsdiv_9_16)
  moreover have "jsmul (jsmul (of_int w) (9 / 16)) (fl (55 / 100)) = fl y"
    by (simp only: jsmul_w_916 [OF assms] fl_055 y_def) (simp only: jsmul_def)
  ultimately show ?thesis by (simp only: n_def)
qed

lemma frameSize_of_exact:
  assumes "0 \<le> w" "w \<le> 1048576" "0 \<le> h" "h \<le> 1048576"
  shows "int (frameSize_of w h) = w * h * 3"
proof -
  have "w * h \<le> 1048576 * 1048576" using assms by (intro mult_mono) simp_all
  then have b: "w * h < 2 ^ 50" by simp
  have p: "0 \<le> w * h" using assms by simp
  have a: "jsmul (of_int w) (of_int h) = of_int (w * h)"
    unfolding jsmul_def using fl_of_int [of "w * h"] p b by simp
  have c: "fl (of_int (w * h * 3)) = of_int (w * h * 3)"
    by (rule fl_of_int) (use p b in simp_all)
  have "jsmul (jsmul (of_int w) (of_int h)) 3 = of_int (w * h * 3)"
    unfolding a unfolding jsmul_def using c by simp
  then have "\<lfloor>jsmul (jsmul (of_int w) (of_int h)) 3\<rfloor> = w * h * 3"
    by (simp only: floor_of_int)
  then show ?thesis using p by (simp add: frameSize_of_def)
qed

lemma height_of_80: "height_of 80 = 24"
  using height_of_exact [of 80] by simp

lemma fl_zero: "fl 0 = 0"
  by (simp add: fl_def)

lemma fl_of_nat: "n < 2 ^ 53 \<Longrightarrow> fl (of_nat n) = of_nat n"
proof -
  assume "n < 2 ^ 53"
  then have "int n < 2 ^ 53" by (metis of_nat_less_numeral_power_cancel_iff)
  then have "fl (of_int (int n)) = of_int (int n)" by (intro fl_of_int) simp_all
  then show ?thesis by simp
qed

lemma third_nonneg: "(0::rat) \<le> of_nat n / 3"
  by (rule divide_nonneg_nonneg) simp_all

lemma unat_byte_less: "unat (x :: byte) < 256"
  using unsigned_less [of x, where ?'a = nat] by simp

lemma brightness_eq:
  "brightness r g b = fl (of_nat (unat r + unat g + unat b) / 3)"
proof -
  have rg: "unat r + unat g < 2 ^ 53"
    using unat_byte_less [of r] unat_byte_less [of g] by simp
  have rgb: "unat r + unat g + unat b < 2 ^ 53"
    using unat_byte_less [of r] unat_byte_less [of g] unat_byte_less [of b] by simp
  have "jsadd (of_nat (unat r)) (of_nat (unat g)) = of_nat (unat r + unat g)"
    unfolding jsadd_def using fl_of_nat [OF rg] by simp
  moreover have "jsadd (of_nat (unat r + unat g)) (of_nat (unat b)) = of_nat (unat r + unat g + unat b)"
    unfolding jsadd_def using fl_of_nat [OF rgb] by simp
  ultimately show ?thesis by (simp only: brightness_def jsdiv_def)
qed

lemma brightness_sum_mono:
  assumes "unat r + unat g + unat b \<le> unat r' + unat g' + unat b'"
  shows "brightness r g b \<le> brightness r' g' b'"
proof -
  have "(of_nat (unat r + unat g + unat b) :: rat) \<le> of_nat (unat r' + unat g' + unat b')"
    using assms by (simp only: of_nat_le_iff)
  then have "(of_nat (unat r + unat g + unat b) :: rat) / 3 \<le> of_nat (unat r' + unat g' + unat b') / 3"
    by (simp add: divide_right_mono)
  moreover have "(0::rat) \<le> of_nat (unat r + unat g + unat b) / 3" by (rule third_nonneg)
  ultimately show ?thesis unfolding brightness_eq by (intro fl_mono)
qed

lemma brightness_black: "brightness 0 0 0 = 0"
  by (simp add: brightness_eq fl_zero)

lemma brightness_white: "brightness 255 255 255 = 255"
proof -
  have "fl (of_int 255) = of_int 255" by (rule fl_of_int) simp_all
  then show ?thesis by (simp add: brightness_eq)
qed

lemma brightness_range: "0 \<le> brightness r g b \<and> brightness r g b \<le> 255"
proof
  show "0 \<le> brightness r g b" unfolding brightness_eq by (rule fl_nonneg) (rule third_nonneg)
  have "unat r + unat g + unat b \<le> unat (255::byte) + unat (255::byte) + unat (255::byte)"
    using unat_byte_less [of r] unat_byte_less [of g] unat_byte_less [of b] by simp
  then have "brightness r g b \<le> brightness 255 255 255" by (rule brightness_sum_mono)
  then show "brightness r g b \<le> 255" by (simp only: brightness_white)
qed

lemma jssub_len:
  assumes "0 < len" "len < 2 ^ 53"
  shows "jssub (of_nat len) 1 = of_nat len - 1"
proof -
  have "int len < 2 ^ 53" using assms(2) by (metis of_nat_less_numeral_power_cancel_iff)
  then have "fl (of_int (int len - 1)) = of_int (int len - 1)"
    using assms(1) by (intro fl_of_int) simp_all
  then show ?thesis by (simp add: jssub_def)
qed

lemma jssub_len_nonneg: "0 < len \<Longrightarrow> 0 \<le> jssub (of_nat len) 1"
  unfolding jssub_def by (rule fl_nonneg) simp

lemma charIndex_eq:
  assumes "0 < len" "len < 2 ^ 53"
  shows "charIndex br len = \<lfloor>fl (fl (br / 255) * (of_nat len - 1))\<rfloor>"
  by (simp only: charIndex_def jssub_len [OF assms] jsmul_def jsdiv_def)

lemma charIndex_zero: "charIndex 0 len = 0"
  by (simp add: charIndex_def jsdiv_def jsmul_def fl_zero)

lemma charIndex_255:
  assumes "0 < len" "len < 2 ^ 53"
  shows "charIndex 255 len = int len - 1"
proof -
  have one: "fl (of_int 1) = of_int 1" by (rule fl_of_int) simp_all
  have "int len < 2 ^ 53" using assms(2) by (metis of_nat_less_numeral_power_cancel_iff)
  then have "fl (of_int (int len - 1)) = of_int (int len - 1)"
    using assms(1) by (intro fl_of_int) simp_all
  then have "fl (fl (255 / 255) * (of_nat len - 1)) = of_int (int len - 1)"
    using one by simp
  then have "\<lfloor>fl (fl (255 / 255) * (of_nat len - 1))\<rfloor> = int len - 1"
    by (simp only: floor_of_int)
  then show ?thesis by (simp only: charIndex_eq [OF assms])
qed

lemma charIndex_mono:
  assumes "0 < len" "0 \<le> b1" "b1 \<le> b2"
  shows "charIndex b1 len \<le> charIndex b2 len"
proof -
  have m: "0 \<le> jssub (of_nat len) 1" using assms(1) by (rule jssub_len_nonneg)
  have "b1 / 255 \<le> b2 / 255" using assms(3) by (simp add: divide_right_mono)
  moreover have "0 \<le> b1 / 255" using assms(2) by simp
  ultimately have d: "jsdiv b1 255 \<le> jsdiv b2 255" unfolding jsdiv_def by (intro fl_mono)
  have d0: "0 \<le> jsdiv b1 255" unfolding jsdiv_def using assms(2) by (intro fl_nonneg) simp
  have "jsdiv b1 255 * jssub (of_nat len) 1 \<le> jsdiv b2 255 * jssub (of_nat len) 1"
    using d m by (rule mult_right_mono)
  moreover have "0 \<le> jsdiv b1 255 * jssub (of_nat len) 1" using d0 m by simp
  ultimately have "jsmul (jsdiv b1 255) (jssub (of_nat len) 1) \<le> jsmul (jsdiv b2 255) (jssub (of_nat len) 1)"
    unfolding jsmul_def by (intro fl_mono)
  then show ?thesis unfolding charIndex_def by (rule floor_mono)
qed

lemma charIndex_bounds:
  assumes "0 < len" "len < 2 ^ 53"
  shows "0 \<le> charIndex (brightness r g b) len \<and> charIndex (brightness r g b) len < int len"
proof -
  have "charIndex 0 len \<le> charIndex (brightness r g b) len"
    using brightness_range [of r g b] assms(1) by (intro charIndex_mono) simp_all
  moreover have "charIndex (brightness r g b) len \<le> charIndex 255 len"
    using brightness_range [of r g b] assms(1) by (intro charIndex_mono) simp_all
  ultimately show ?thesis by (simp add: charIndex_zero charIndex_255 [OF assms])
qed

lemma glyph_in_ramp:
  assumes "ramp \<noteq> []" "length ramp < 2 ^ 53"
  shows "glyph (String ramp) (Some r) (Some g) (Some b) =
           Some (ramp ! nat (charIndex (brightness r g b) (length ramp)))"
    and "ramp ! nat (charIndex (brightness r g b) (length ramp)) \<in> set ramp"
proof -
  have len: "0 < length ramp" using assms(1) by simp
  note bd = charIndex_bounds [OF len assms(2), of r g b]
  then have lt: "nat (charIndex (brightness r g b) (length ramp)) < length ramp" by linarith
  show "glyph (String ramp) (Some r) (Some g) (Some b) =
           Some (ramp ! nat (charIndex (brightness r g b) (length ramp)))"
    using bd lt by (simp add: glyph_def charAt_def)
  show "ramp ! nat (charIndex (brightness r g b) (length ramp)) \<in> set ramp"
    using lt by (rule nth_mem)
qed






lemma length_ramps:
  "length standard = 10" "length simple = 5" "length blocks = 5" "length solid = 1"
  by (simp_all add: standard_def simple_def blocks_def solid_def str_def)

lemma ramps_nonempty: "standard \<noteq> []" "simple \<noteq> []" "blocks \<noteq> []" "solid \<noteq> []"
  by (simp_all add: standard_def simple_def blocks_def solid_def str_def)

lemma CHARSETS_cases:
  "map_of CHARSETS name = Some ramp \<Longrightarrow>
     (name = ''standard'' \<and> ramp = standard) \<or> (name = ''simple'' \<and> ramp = simple) \<or>
     (name = ''blocks'' \<and> ramp = blocks) \<or> (name = ''solid'' \<and> ramp = solid)"
  by (simp add: CHARSETS_def split: if_splits)

lemma selectChars_named:
  assumes "map_of CHARSETS name = Some ramp"
  shows "selectChars (Some name) = String ramp"
proof -
  have "ramp \<noteq> []" using CHARSETS_cases [OF assms] ramps_nonempty by auto
  then show ?thesis using assms by (simp add: selectChars_def getProperty_def truthy_def)
qed

lemma selectChars_fallback:
  "selectChars None = String standard"
  "map_of CHARSETS name = None \<Longrightarrow> name \<notin> set Object_prototype_keys \<Longrightarrow>
     selectChars (Some name) = String standard"
  by (simp_all add: selectChars_def getProperty_def truthy_def)

lemma xLoop_eq:
  "xLoop cfg frame y x acc =
     acc @ concat (map (\<lambda>x. renderPixel (chars cfg) frame ((y * width cfg + x) * 3)) [x..<width cfg])"
proof (induction cfg frame y x acc rule: xLoop.induct)
  case (1 cfg frame y x acc)
  show ?case
  proof (cases "x < width cfg")
    case True
    then have "[x..<width cfg] = x # [x + 1..<width cfg]" by (simp add: upt_conv_Cons)
    with True 1 show ?thesis by (subst xLoop.simps) simp
  next
    case False
    then show ?thesis by (subst xLoop.simps) simp
  qed
qed

lemma yLoop_eq:
  "yLoop cfg frame y acc =
     acc @ concat (map (\<lambda>y. concat (map (\<lambda>x. renderPixel (chars cfg) frame ((y * width cfg + x) * 3))
                                        [0..<width cfg]) @ [newline]) [y..<height cfg])"
proof (induction cfg frame y acc rule: yLoop.induct)
  case (1 cfg frame y acc)
  show ?case
  proof (cases "y < height cfg")
    case True
    then have "[y..<height cfg] = y # [y + 1..<height cfg]" by (simp add: upt_conv_Cons)
    with True 1 show ?thesis by (subst yLoop.simps) (simp add: xLoop_eq)
  next
    case False
    then show ?thesis by (subst yLoop.simps) simp
  qed
qed

lemma pixel_offset_in_frame:
  fixes x y w h :: nat
  assumes "x < w" "y < h"
  shows "(y * w + x) * 3 + 2 < w * h * 3"
proof -
  have "y * w + x < y * w + w" using assms(1) by simp
  also have "\<dots> = (y + 1) * w" by simp
  also have "\<dots> \<le> h * w" using assms(2) by (intro mult_le_mono1) simp
  finally have "y * w + x + 1 \<le> w * h" by (simp add: mult.commute)
  then have "(y * w + x + 1) * 3 \<le> w * h * 3" by simp
  then show ?thesis by simp
qed

lemma renderPixel_in_frame:
  assumes "ramp \<noteq> []" "length ramp < 2 ^ 53" "i + 2 < length frame"
  shows "renderPixel (String ramp) frame i = colorCell ramp (frame ! i) (frame ! (i + 1)) (frame ! (i + 2))"
  using assms(3) glyph_in_ramp(1) [OF assms(1,2)]
  by (simp add: renderPixel_def byteAt_def showByte_def showChar_def colorCell_def Let_def)

lemma unat_digit: "d < 10 \<Longrightarrow> unat (digit d) = 48 + d"
  unfolding digit_def by (simp only: unat_of_nat) simp

lemma decimalValue_snoc: "decimalValue (ds @ [d]) = 10 * decimalValue ds + (unat d - 48)"
  by (simp add: decimalValue_def)

lemma decimalValue_numToString: "decimalValue (numToString n) = n"
proof (induction n rule: numToString.induct)
  case (1 n)
  show ?case
  proof (cases "n < 10")
    case True
    then show ?thesis by (subst numToString.simps) (simp add: decimalValue_def unat_digit)
  next
    case False
    then have "decimalValue (numToString (n div 10)) = n div 10" using 1 by simp
    with False show ?thesis
      by (subst numToString.simps) (simp add: decimalValue_snoc unat_digit)
  qed
qed

lemma colorCell_black: "colorCell standard 0 0 0 = ESC # str ''[38;2;0;0;0m ''"
proof -
  have "numToString 0 = str ''0''" by (subst numToString.simps) (simp add: digit_def str_def)
  moreover have "standard ! 0 = of_char CHR '' ''" by (simp add: standard_def str_def)
  ultimately show ?thesis
    by (simp add: colorCell_def brightness_black charIndex_zero str_def)
qed


lemma renderText_eq:
  "renderText cfg frame =
     cursorHome @
     concat (map (\<lambda>y. concat (map (\<lambda>x. renderPixel (chars cfg) frame ((y * width cfg + x) * 3))
                                [0..<width cfg]) @ [newline]) [0..<height cfg]) @
     colorReset"
  by (simp add: renderText_def yLoop_eq)

lemma renderText_cells:
  assumes "chars cfg = String ramp" "ramp \<noteq> []" "length ramp < 2 ^ 53"
    and "length frame = width cfg * height cfg * 3"
  shows "renderText cfg frame =
     cursorHome @
     concat (map (\<lambda>y. concat (map (\<lambda>x. colorCell ramp (frame ! ((y * width cfg + x) * 3))
                                     (frame ! ((y * width cfg + x) * 3 + 1))
                                     (frame ! ((y * width cfg + x) * 3 + 2)))
                                [0..<width cfg]) @ [newline]) [0..<height cfg]) @
     colorReset"
proof -
  have px: "renderPixel (chars cfg) frame ((y * width cfg + x) * 3) =
              colorCell ramp (frame ! ((y * width cfg + x) * 3))
                (frame ! ((y * width cfg + x) * 3 + 1)) (frame ! ((y * width cfg + x) * 3 + 2))"
    if "x < width cfg" "y < height cfg" for x y
  proof -
    have "(y * width cfg + x) * 3 + 2 < length frame"
      using pixel_offset_in_frame [OF that] assms(4) by simp
    then show ?thesis
      unfolding assms(1) by (rule renderPixel_in_frame [OF assms(2,3)])
  qed
  have inner: "map (\<lambda>x. renderPixel (chars cfg) frame ((y * width cfg + x) * 3)) [0..<width cfg] =
        map (\<lambda>x. colorCell ramp (frame ! ((y * width cfg + x) * 3))
                                     (frame ! ((y * width cfg + x) * 3 + 1))
                                     (frame ! ((y * width cfg + x) * 3 + 2))) [0..<width cfg]"
    if y: "y < height cfg" for y
  proof (rule map_cong [OF refl])
    fix x assume "x \<in> set [0..<width cfg]"
    then have "x < width cfg" by simp
    then show "renderPixel (chars cfg) frame ((y * width cfg + x) * 3) =
              colorCell ramp (frame ! ((y * width cfg + x) * 3))
                (frame ! ((y * width cfg + x) * 3 + 1)) (frame ! ((y * width cfg + x) * 3 + 2))"
      using y by (rule px)
  qed
  have "map (\<lambda>y. concat (map (\<lambda>x. renderPixel (chars cfg) frame ((y * width cfg + x) * 3))
                                [0..<width cfg]) @ [newline]) [0..<height cfg] =
        map (\<lambda>y. concat (map (\<lambda>x. colorCell ramp (frame ! ((y * width cfg + x) * 3))
                                     (frame ! ((y * width cfg + x) * 3 + 1))
                                     (frame ! ((y * width cfg + x) * 3 + 2)))
                                [0..<width cfg]) @ [newline]) [0..<height cfg]"
  proof (rule map_cong [OF refl])
    fix y assume "y \<in> set [0..<height cfg]"
    then have "y < height cfg" by simp
    from inner [OF this]
    show "concat (map (\<lambda>x. renderPixel (chars cfg) frame ((y * width cfg + x) * 3))
                                [0..<width cfg]) @ [newline] =
          concat (map (\<lambda>x. colorCell ramp (frame ! ((y * width cfg + x) * 3))
                                     (frame ! ((y * width cfg + x) * 3 + 1))
                                     (frame ! ((y * width cfg + x) * 3 + 2)))
                                [0..<width cfg]) @ [newline]"
      by (simp only:)
  qed
  then show ?thesis by (simp only: renderText_eq)
qed

lemma renderText_black:
  assumes "chars cfg = String standard"
  shows "renderText cfg (replicate (width cfg * height cfg * 3) 0) =
     cursorHome @
     concat (replicate (height cfg)
               (concat (replicate (width cfg) (ESC # str ''[38;2;0;0;0m '')) @ [newline])) @
     colorReset"
proof -
  let ?frame = "replicate (width cfg * height cfg * 3) (0::byte)"
  have cell: "colorCell standard (?frame ! ((y * width cfg + x) * 3))
                (?frame ! ((y * width cfg + x) * 3 + 1)) (?frame ! ((y * width cfg + x) * 3 + 2)) =
              ESC # str ''[38;2;0;0;0m ''"
    if "x < width cfg" "y < height cfg" for x y
  proof -
    have "(y * width cfg + x) * 3 + 2 < width cfg * height cfg * 3"
      using that by (rule pixel_offset_in_frame)
    then show ?thesis by (simp add: colorCell_black)
  qed
  have row: "concat (map (\<lambda>x. colorCell standard (?frame ! ((y * width cfg + x) * 3))
                (?frame ! ((y * width cfg + x) * 3 + 1)) (?frame ! ((y * width cfg + x) * 3 + 2)))
              [0..<width cfg]) @ [newline] =
             concat (replicate (width cfg) (ESC # str ''[38;2;0;0;0m '')) @ [newline]"
    if y: "y < height cfg" for y
  proof -
    have "map (\<lambda>x. colorCell standard (?frame ! ((y * width cfg + x) * 3))
                (?frame ! ((y * width cfg + x) * 3 + 1)) (?frame ! ((y * width cfg + x) * 3 + 2)))
              [0..<width cfg] = map (\<lambda>x. ESC # str ''[38;2;0;0;0m '') [0..<width cfg]"
    proof (rule map_cong [OF refl])
      fix x assume "x \<in> set [0..<width cfg]"
      then have "x < width cfg" by simp
      then show "colorCell standard (?frame ! ((y * width cfg + x) * 3))
                (?frame ! ((y * width cfg + x) * 3 + 1)) (?frame ! ((y * width cfg + x) * 3 + 2)) =
              ESC # str ''[38;2;0;0;0m ''" using y by (rule cell)
    qed
    also have "\<dots> = replicate (width cfg) (ESC # str ''[38;2;0;0;0m '')"
      by (simp only: map_replicate_const length_upt diff_zero)
    finally show ?thesis by (simp only:)
  qed
  have "map (\<lambda>y. concat (map (\<lambda>x. colorCell standard (?frame ! ((y * width cfg + x) * 3))
                (?frame ! ((y * width cfg + x) * 3 + 1)) (?frame ! ((y * width cfg + x) * 3 + 2)))
              [0..<width cfg]) @ [newline]) [0..<height cfg] =
        map (\<lambda>y. concat (replicate (width cfg) (ESC # str ''[38;2;0;0;0m '')) @ [newline]) [0..<height cfg]"
  proof (rule map_cong [OF refl])
    fix y assume "y \<in> set [0..<height cfg]"
    then have "y < height cfg" by simp
    then show "concat (map (\<lambda>x. colorCell standard (?frame ! ((y * width cfg + x) * 3))
                (?frame ! ((y * width cfg + x) * 3 + 1)) (?frame ! ((y * width cfg + x) * 3 + 2)))
              [0..<width cfg]) @ [newline] =
             concat (replicate (width cfg) (ESC # str ''[38;2;0;0;0m '')) @ [newline]" by (rule row)
  qed
  also have "\<dots> = replicate (height cfg)
               (concat (replicate (width cfg) (ESC # str ''[38;2;0;0;0m '')) @ [newline])"
    by (simp only: map_replicate_const length_upt diff_zero)
  finally have body: "concat (map (\<lambda>y. concat (map (\<lambda>x. colorCell standard (?frame ! ((y * width cfg + x) * 3))
                (?frame ! ((y * width cfg + x) * 3 + 1)) (?frame ! ((y * width cfg + x) * 3 + 2)))
              [0..<width cfg]) @ [newline]) [0..<height cfg]) =
        concat (replicate (height cfg)
               (concat (replicate (width cfg) (ESC # str ''[38;2;0;0;0m '')) @ [newline]))"
    by (simp only:)
  have len: "length ?frame = width cfg * height cfg * 3" by simp
  have lt: "length standard < 2 ^ 53" by (simp add: length_ramps)
  show ?thesis
    unfolding renderText_cells [OF assms ramps_nonempty(1) lt len] body ..
qed

lemma config_4:
  "playVideoAscii_config 4 (Some ''standard'') tty win =
     \<lparr>width = 4, height = 1, frameSize = 12, chars = String standard, isTTY = tty, isWindows = win\<rparr>"
proof -
  have h: "height_of 4 = 1" using height_of_exact [of 4] by simp
  have "int (frameSize_of 4 1) = 4 * 1 * 3" by (rule frameSize_of_exact) simp_all
  then have f: "frameSize_of 4 1 = 12" by simp
  have c: "selectChars (Some ''standard'') = String standard"
    by (rule selectChars_named) (simp add: CHARSETS_def)
  show ?thesis by (simp add: playVideoAscii_config_def h f c)
qed

lemma slices_short: "length bytes < fs \<Longrightarrow> slices fs bytes = []"
  by (simp add: slices_def)

lemma slices_step:
  assumes "0 < fs" "fs \<le> length bytes"
  shows "slices fs bytes = take fs bytes # slices fs (drop fs bytes)"
proof -
  have d: "length bytes div fs = Suc ((length bytes - fs) div fs)"
    using assms by (simp add: le_div_geq)
  have "[0..<Suc ((length bytes - fs) div fs)] = 0 # map Suc [0..<(length bytes - fs) div fs]"
    by (simp add: upt_conv_Cons map_Suc_upt del: upt_Suc)
  then show ?thesis
    by (simp add: slices_def d add.commute del: upt_Suc)
qed

lemma slices_length_elem:
  assumes "0 < fs" "f \<in> set (slices fs bytes)"
  shows "length f = fs"
proof -
  from assms(2) obtain i where i: "i < length bytes div fs" and f: "f = take fs (drop (i * fs) bytes)"
    by (auto simp: slices_def)
  have "(i + 1) * fs \<le> (length bytes div fs) * fs" using i by (intro mult_le_mono1) simp
  also have "\<dots> \<le> length bytes" by simp
  finally have "i * fs + fs \<le> length bytes" by simp
  then show ?thesis by (simp add: f)
qed

lemma length_slices: "length (slices fs bytes) = length bytes div fs"
  by (simp add: slices_def)

lemma remainder_length:
  "0 < fs \<Longrightarrow> length (drop (fs * (length bytes div fs)) bytes) = length bytes mod fs"
  by (simp add: minus_mult_div_eq_mod)

lemma slices_concat:
  assumes "0 < fs"
  shows "concat (slices fs bytes) @ drop (fs * (length bytes div fs)) bytes = bytes"
proof (induction "length bytes" arbitrary: bytes rule: less_induct)
  case less
  show ?case
  proof (cases "fs \<le> length bytes")
    case True
    have d: "length bytes div fs = Suc ((length bytes - fs) div fs)"
      using assms True by (simp add: le_div_geq)
    have "length (drop fs bytes) < length bytes" using assms True by simp
    from less [OF this]
    have "concat (slices fs (drop fs bytes)) @ drop (fs * ((length bytes - fs) div fs)) (drop fs bytes)
            = drop fs bytes" by simp
    then show ?thesis
      using True by (simp add: slices_step [OF assms True] d add.commute)
  next
    case False
    then show ?thesis by (simp add: slices_short)
  qed
qed

lemma slices_unique:
  assumes "0 < fs" "\<forall>f\<in>set xs. length f = fs" "length r < fs"
  shows "slices fs (concat xs @ r) = xs \<and>
         drop (fs * (length (concat xs @ r) div fs)) (concat xs @ r) = r"
  using assms(2)
proof (induction xs)
  case Nil
  then show ?case using assms(3) by (simp add: slices_short)
next
  case (Cons x xs)
  then have lx: "length x = fs" and ih: "slices fs (concat xs @ r) = xs"
    "drop (fs * (length (concat xs @ r) div fs)) (concat xs @ r) = r" by simp_all
  have le: "fs \<le> length (concat (x # xs) @ r)" using lx by simp
  have d: "length (concat (x # xs) @ r) div fs = Suc (length (concat xs @ r) div fs)"
    using assms(1) lx by (simp add: le_div_geq)
  have "slices fs (concat (x # xs) @ r) = x # xs"
    using slices_step [OF assms(1) le] lx ih(1) by simp
  moreover have "drop (fs * (length (concat (x # xs) @ r) div fs)) (concat (x # xs) @ r) = r"
    unfolding d using lx ih(2) by (simp add: add.commute)
  ultimately show ?case by simp
qed

lemma assembleLoop_eq:
  assumes "0 < fs"
  shows "assembleLoop fs s =
           Some (s\<lparr>buffer := drop (fs * (length (buffer s) div fs)) (buffer s),
                   frameQueue := foldl enqueue (frameQueue s) (slices fs (buffer s)),
                   assembled := assembled s @ slices fs (buffer s)\<rparr>)"
proof (induction "length (buffer s)" arbitrary: s rule: less_induct)
  case less
  show ?case
  proof (cases "fs \<le> length (buffer s)")
    case True
    define s' where "s' = s\<lparr>buffer := drop fs (buffer s),
               frameQueue := enqueue (frameQueue s) (take fs (buffer s)),
               assembled := assembled s @ [take fs (buffer s)]\<rparr>"
    have d: "length (buffer s) div fs = Suc ((length (buffer s) - fs) div fs)"
      using assms True by (simp add: le_div_geq)
    have "length (buffer s') < length (buffer s)" using assms True by (simp add: s'_def)
    from less [OF this]
    have "assembleLoop fs s' =
           Some (s'\<lparr>buffer := drop (fs * (length (buffer s') div fs)) (buffer s'),
                   frameQueue := foldl enqueue (frameQueue s') (slices fs (buffer s')),
                   assembled := assembled s' @ slices fs (buffer s')\<rparr>)" .
    moreover have "assembleLoop fs s = assembleLoop fs s'"
      using True by (subst assembleLoop.simps) (simp add: s'_def)
    ultimately show ?thesis
      by (simp add: s'_def slices_step [OF assms True] d add.commute)
  next
    case False
    then have "assembleLoop fs s = Some s" by (subst assembleLoop.simps) simp
    with False show ?thesis by (simp add: slices_short)
  qed
qed

lemma assembleLoop_frame:
  assumes "assembleLoop fs s = Some s1"
  shows "\<exists>b q a. s1 = s\<lparr>buffer := b, frameQueue := q, assembled := a\<rparr> \<and>
           (length (frameQueue s) \<le> 30 \<longrightarrow> length q \<le> 30)"
proof (rule assembleLoop.raw_induct
    [where P = "\<lambda>fs s y. \<exists>b q a. y = s\<lparr>buffer := b, frameQueue := q, assembled := a\<rparr> \<and>
           (length (frameQueue s) \<le> 30 \<longrightarrow> length q \<le> 30)", OF _ assms], goal_cases)
  case (1 loop fs s y)
  show ?case
  proof (cases "fs \<le> length (buffer s)")
    case True
    define s' where "s' = s\<lparr>buffer := drop fs (buffer s),
               frameQueue := enqueue (frameQueue s) (take fs (buffer s)),
               assembled := assembled s @ [take fs (buffer s)]\<rparr>"
    have "loop fs s' = Some y" using 1(2) True by (simp add: s'_def)
    from 1(1) [OF this] obtain b q a where
      y: "y = s'\<lparr>buffer := b, frameQueue := q, assembled := a\<rparr>"
      and l: "length (frameQueue s') \<le> 30 \<longrightarrow> length q \<le> 30" by blast
    have "y = s\<lparr>buffer := b, frameQueue := q, assembled := a\<rparr>" by (simp add: y s'_def)
    moreover have "length (frameQueue s) \<le> 30 \<longrightarrow> length q \<le> 30"
      using l by (auto simp: s'_def enqueue_def Let_def)
    ultimately show ?thesis by blast
  next
    case False
    then have "y = s" using 1(2) by simp
    then have "y = s\<lparr>buffer := buffer s, frameQueue := frameQueue s, assembled := assembled s\<rparr>"
      by simp
    then show ?thesis by blast
  qed
qed

lemma assembleLoop_zero: "assembleLoop 0 s = None"
proof -
  have "fs \<noteq> 0" if a: "assembleLoop fs s = Some y" for fs y
  proof (rule assembleLoop.raw_induct [where P = "\<lambda>fs s y. fs \<noteq> 0", OF _ a], goal_cases)
    case (1 loop fs s y)
    show ?case
    proof
      assume "fs = 0"
      then have "loop fs (s\<lparr>buffer := drop fs (buffer s),
               frameQueue := enqueue (frameQueue s) (take fs (buffer s)),
               assembled := assembled s @ [take fs (buffer s)]\<rparr>) = Some y"
        using 1(2) by simp
      from 1(1) [OF this] \<open>fs = 0\<close> show False by simp
    qed
  qed
  then show ?thesis by (cases "assembleLoop 0 s") auto
qed

lemma run_invariant:
  assumes step: "\<And>ev s s'. I s \<Longrightarrow> dispatch cfg ev s = Inr s' \<Longrightarrow> I s'"
    and "I s" "run cfg evs s = Inr s'"
  shows "I s'"
  using assms(2,3)
proof (induction evs arbitrary: s)
  case Nil
  then show ?case by simp
next
  case (Cons ev evs)
  from Cons.prems(2) obtain s1 where d: "dispatch cfg ev s = Inr s1" and r: "run cfg evs s1 = Inr s'"
    by (auto split: option.splits sum.splits)
  from step [OF Cons.prems(1) d] have "I s1" .
  from Cons.IH [OF this r] show ?case .
qed

lemma renderText_not_cursor:
  "renderText cfg f \<noteq> showCursor" "renderText cfg f \<noteq> hideCursor"
proof -
  have "renderText cfg f ! 2 = of_char CHR ''H''"
    by (simp add: renderText_eq cursorHome_def str_def)
  moreover have "showCursor ! 2 = of_char CHR ''?''" "hideCursor ! 2 = of_char CHR ''?''"
    by (simp_all add: showCursor_def hideCursor_def str_def)
  moreover have "(of_char CHR ''H'' :: 16 word) \<noteq> of_char CHR ''?''" by simp
  ultimately show "renderText cfg f \<noteq> showCursor" "renderText cfg f \<noteq> hideCursor"
    by metis+
qed

lemma cursor_distinct: "showCursor \<noteq> hideCursor"
  by (simp add: showCursor_def hideCursor_def str_def)

lemma renderFrame_out:
  "out (renderFrame cfg f s) =
     out s @ (if firstFrame s then [ConsoleClear, StdoutWrite hideCursor] else [])
       @ [StdoutWrite (renderText cfg f)]"
  by (simp add: renderFrame_def emit_def Let_def)

lemma renderFrame_fields:
  "firstFrame (renderFrame cfg f s) = False"
  "frameCount (renderFrame cfg f s) = frameCount s + 1"
  "cleanedUp (renderFrame cfg f s) = cleanedUp s"
  "ffmpegKilled (renderFrame cfg f s) = ffmpegKilled s"
  "audioKilled (renderFrame cfg f s) = audioKilled s"
  "keyListener (renderFrame cfg f s) = keyListener s"
  "timers (renderFrame cfg f s) = timers s"
  "resolved (renderFrame cfg f s) = resolved s"
  "frameQueue (renderFrame cfg f s) = frameQueue s"
  "buffer (renderFrame cfg f s) = buffer s"
  "assembled (renderFrame cfg f s) = assembled s"
  by (simp_all add: renderFrame_def emit_def Let_def)

lemma effects_inv_renderFrame:
  assumes "effects_inv s"
  shows "effects_inv (renderFrame cfg f s)"
  using assms renderText_not_cursor [of cfg f] cursor_distinct
  by (simp add: effects_inv_def renderFrame_out renderFrame_fields)

lemma effects_inv_update:
  "effects_inv (s\<lparr>isProcessing := p\<rparr>) = effects_inv s"
  "effects_inv (s\<lparr>frameQueue := q\<rparr>) = effects_inv s"
  "effects_inv (s\<lparr>buffer := b\<rparr>) = effects_inv s"
  "effects_inv (s\<lparr>assembled := a\<rparr>) = effects_inv s"
  "effects_inv (s\<lparr>immediates := n\<rparr>) = effects_inv s"
  by (simp_all add: effects_inv_def)

lemma effects_inv_processNextFrame:
  assumes "effects_inv s"
  shows "effects_inv (processNextFrame cfg s)"
  using assms
  by (simp add: processNextFrame_def Let_def effects_inv_update effects_inv_renderFrame)

lemma effects_inv_cleanup:
  assumes "effects_inv s"
  shows "effects_inv (cleanup cfg s)" "cleanedUp (cleanup cfg s)"
  using assms cursor_distinct
  by (auto simp: effects_inv_def cleanup_def emit_def Let_def)

lemma effects_inv_init: "effects_inv (init cfg)"
  by (simp add: effects_inv_def init_def)

lemma effects_inv_dispatch:
  assumes "effects_inv s" "dispatch cfg ev s = Inr s'"
  shows "effects_inv s'"
proof (cases ev)
  case (Data chunk)
  with assms(2) obtain s1 where l: "assembleLoop (frameSize cfg) (s\<lparr>buffer := buffer s @ chunk\<rparr>) = Some s1"
    and s': "s' = (if \<not> isProcessing s1 then processNextFrame cfg s1 else s1)"
    by (auto simp: dispatch_def onData_def split: option.splits sum.splits)
  from assembleLoop_frame [OF l] obtain b q a where
    "s1 = s\<lparr>buffer := buffer s @ chunk\<rparr>\<lparr>buffer := b, frameQueue := q, assembled := a\<rparr>" by blast
  then have "effects_inv s1" using assms(1) by (simp add: effects_inv_update)
  then show ?thesis unfolding s' by (simp add: effects_inv_processNextFrame)
next
  case (KeyPress key)
  have "effects_inv ((cleanup cfg s)\<lparr>timers := timers (cleanup cfg s) + 1\<rparr>)"
    using effects_inv_cleanup [OF assms(1), of cfg] by (simp add: effects_inv_def)
  then show ?thesis using assms KeyPress by (auto simp: dispatch_def onKeyPress_def)
next
  case (FfmpegError enoent)
  define s1 where "s1 = (if enoent
                then emit (LogDecoderNotFound # (if isWindows cfg then [LogInstallHint] else [])) s
                else s)"
  have "effects_inv s1" using assms(1) by (auto simp: s1_def effects_inv_def emit_def)
  from effects_inv_cleanup [OF this, of cfg]
  have "effects_inv (resolve (cleanup cfg s1))" by (simp add: effects_inv_def resolve_def)
  then show ?thesis using assms(2) FfmpegError by (simp add: dispatch_def onError_def s1_def Let_def)
next
  case FfmpegClose
  from effects_inv_cleanup [OF assms(1), of cfg]
  have "effects_inv (resolve (cleanup cfg s))" by (simp add: effects_inv_def resolve_def)
  then show ?thesis using assms(2) FfmpegClose by (simp add: dispatch_def onClose_def)
next
  case Immediate
  have "effects_inv (processNextFrame cfg (s\<lparr>immediates := immediates s - 1\<rparr>))"
    using assms(1) by (intro effects_inv_processNextFrame) (simp add: effects_inv_update)
  then show ?thesis using assms Immediate by (auto simp: dispatch_def)
next
  case AudioError
  then show ?thesis using assms(2) by (simp add: dispatch_def)
next
  case Timeout
  have "0 < timers s \<Longrightarrow> effects_inv (resolve (s\<lparr>timers := timers s - 1\<rparr>))"
    using assms(1) by (simp add: effects_inv_def resolve_def)
  then show ?thesis using assms Timeout by (auto simp: dispatch_def)
qed

lemma effects_inv_run:
  assumes "run cfg evs (init cfg) = Inr s"
  shows "effects_inv s"
  using effects_inv_dispatch effects_inv_init assms by (rule run_invariant)

lemma processNextFrame_fields:
  "cleanedUp (processNextFrame cfg s) = cleanedUp s"
  "resolved (processNextFrame cfg s) = resolved s"
  "buffer (processNextFrame cfg s) = buffer s"
  "assembled (processNextFrame cfg s) = assembled s"
  "frameQueue (processNextFrame cfg s) =
     (if isProcessing s \<or> frameQueue s = [] then frameQueue s else tl (frameQueue s))"
  by (simp_all add: processNextFrame_def Let_def renderFrame_fields)

lemma cleanup_fields:
  "cleanedUp s \<Longrightarrow> cleanup cfg s = s"
  "cleanedUp (cleanup cfg s)"
  "resolved (cleanup cfg s) = resolved s"
  "buffer (cleanup cfg s) = buffer s"
  "assembled (cleanup cfg s) = assembled s"
  "frameQueue (cleanup cfg s) = frameQueue s"
  by (simp_all add: cleanup_def emit_def Let_def)

lemma dispatch_no_data:
  assumes "dispatch cfg ev s = Inr s'" "\<forall>chunk. ev \<noteq> Data chunk"
  shows "buffer s' = buffer s \<and> assembled s' = assembled s \<and>
         (frameQueue s' = frameQueue s \<or> frameQueue s' = tl (frameQueue s))"
  using assms
  by (cases ev)
     (auto simp: dispatch_def onKeyPress_def onError_def onClose_def resolve_def emit_def Let_def
           cleanup_fields processNextFrame_fields)

lemma dispatch_stable:
  assumes "cleanedUp s \<and> resolved s" "dispatch cfg ev s = Inr s'"
  shows "cleanedUp s' \<and> resolved s'"
proof (cases ev)
  case (Data chunk)
  with assms(2) obtain s1 where l: "assembleLoop (frameSize cfg) (s\<lparr>buffer := buffer s @ chunk\<rparr>) = Some s1"
    and s': "s' = (if \<not> isProcessing s1 then processNextFrame cfg s1 else s1)"
    by (auto simp: dispatch_def onData_def split: option.splits sum.splits)
  from assembleLoop_frame [OF l] obtain b q a where
    "s1 = s\<lparr>buffer := buffer s @ chunk\<rparr>\<lparr>buffer := b, frameQueue := q, assembled := a\<rparr>" by blast
  then have "cleanedUp s1 \<and> resolved s1" using assms(1) by simp
  then show ?thesis unfolding s' by (simp add: processNextFrame_fields)
qed (use assms in \<open>auto simp: dispatch_def onKeyPress_def onError_def onClose_def resolve_def
        emit_def Let_def cleanup_fields processNextFrame_fields\<close>)

lemma dispatch_decoder_end:
  assumes "isDecoderEnd ev"
  shows "\<exists>s'. dispatch cfg ev s = Inr s' \<and> cleanedUp s' \<and> resolved s'"
  using assms
  by (cases ev)
     (simp_all add: isDecoderEnd_def dispatch_def onError_def onClose_def resolve_def Let_def
        cleanup_fields)

lemma run_decoder_end:
  assumes "run cfg evs s = Inr s'" "(cleanedUp s \<and> resolved s) \<or> (\<exists>ev\<in>set evs. isDecoderEnd ev)"
  shows "cleanedUp s' \<and> resolved s'"
  using assms
proof (induction evs arbitrary: s)
  case Nil
  then show ?case by simp
next
  case (Cons ev evs)
  from Cons.prems(1) obtain s1 where d: "dispatch cfg ev s = Inr s1" and r: "run cfg evs s1 = Inr s'"
    by (auto split: option.splits sum.splits)
  have "(cleanedUp s1 \<and> resolved s1) \<or> (\<exists>ev\<in>set evs. isDecoderEnd ev)"
  proof (cases "cleanedUp s \<and> resolved s")
    case True
    from dispatch_stable [OF True d] show ?thesis by simp
  next
    case False
    show ?thesis
    proof (cases "isDecoderEnd ev")
      case True
      from dispatch_decoder_end [OF True, of cfg s] d show ?thesis by simp
    next
      case nd: False
      with False Cons.prems(2) show ?thesis by auto
    qed
  qed
  from Cons.IH [OF r this] show ?case .
qed

lemma enqueue_length: "length q \<le> 30 \<Longrightarrow> length (enqueue q f) \<le> 30"
  by (simp add: enqueue_def Let_def)

lemma queue_dispatch:
  assumes "length (frameQueue s) \<le> 30" "dispatch cfg ev s = Inr s'"
  shows "length (frameQueue s') \<le> 30"
proof (cases ev)
  case (Data chunk)
  with assms(2) obtain s1 where l: "assembleLoop (frameSize cfg) (s\<lparr>buffer := buffer s @ chunk\<rparr>) = Some s1"
    and s': "s' = (if \<not> isProcessing s1 then processNextFrame cfg s1 else s1)"
    by (auto simp: dispatch_def onData_def split: option.splits sum.splits)
  from assembleLoop_frame [OF l] assms(1) have "length (frameQueue s1) \<le> 30" by auto
  moreover have "length (tl (frameQueue s1)) \<le> length (frameQueue s1)" by simp
  ultimately show ?thesis unfolding s' by (auto simp: processNextFrame_fields simp del: length_tl)
next
  case (KeyPress key)
  with dispatch_no_data [OF assms(2)] assms(1) show ?thesis by auto
next
  case (FfmpegError x)
  with dispatch_no_data [OF assms(2)] assms(1) show ?thesis by auto
next
  case FfmpegClose
  with dispatch_no_data [OF assms(2)] assms(1) show ?thesis by auto
next
  case Immediate
  with dispatch_no_data [OF assms(2)] assms(1) show ?thesis by auto
next
  case AudioError
  then show ?thesis using assms(2) by (simp add: dispatch_def)
next
  case Timeout
  with dispatch_no_data [OF assms(2)] assms(1) show ?thesis by auto
qed

lemma queue_run:
  assumes "run cfg evs (init cfg) = Inr s"
  shows "length (frameQueue s) \<le> 30"
proof -
  have "length (frameQueue (init cfg)) \<le> 30" by (simp add: init_def)
  with queue_dispatch show ?thesis using assms by (rule run_invariant)
qed

lemma dataOf_Cons: "dataOf (ev # evs) = dataOf [ev] @ dataOf evs"
  by (cases ev) simp_all

lemma set_enqueue: "set (enqueue q f) \<subseteq> insert f (set q)"
  by (cases q) (auto simp: enqueue_def Let_def)

lemma set_foldl_enqueue: "set (foldl enqueue q fs) \<subseteq> set q \<union> set fs"
proof (induction fs arbitrary: q)
  case Nil
  then show ?case by simp
next
  case (Cons f fs)
  from Cons [of "enqueue q f"] set_enqueue [of q f] show ?case by auto
qed

lemma set_tl_subset: "set (tl q) \<subseteq> set q"
  by (cases q) auto

lemma assembler_dispatch:
  assumes "0 < frameSize cfg" "assembler_inv (frameSize cfg) s" "ev \<noteq> AudioError"
  shows "\<exists>s'. dispatch cfg ev s = Inr s' \<and> assembler_inv (frameSize cfg) s' \<and>
           concat (assembled s') @ buffer s' = concat (assembled s) @ buffer s @ dataOf [ev]"
proof (cases ev)
  case (Data chunk)
  define fs where "fs = frameSize cfg"
  define bytes where "bytes = buffer s @ chunk"
  define s1 where "s1 = s\<lparr>buffer := drop (fs * (length bytes div fs)) bytes,
                   frameQueue := foldl enqueue (frameQueue s) (slices fs bytes),
                   assembled := assembled s @ slices fs bytes\<rparr>"
  have fs0: "0 < fs" using assms(1) by (simp add: fs_def)
  have l: "assembleLoop fs (s\<lparr>buffer := bytes\<rparr>) = Some s1"
    by (simp add: assembleLoop_eq [OF fs0] s1_def)
  have a: "list_all (\<lambda>f. length f = fs) (assembled s1)"
    using assms(2) slices_length_elem [OF fs0]
    by (auto simp: s1_def assembler_inv_def fs_def list_all_iff)
  have "buffer s1 = drop (fs * (length bytes div fs)) bytes" by (simp add: s1_def)
  then have "length (buffer s1) = length bytes mod fs"
    by (simp only: remainder_length [OF fs0])
  then have b: "length (buffer s1) < fs"
    using fs0 by simp
  have c: "list_all (\<lambda>f. f \<in> set (assembled s1)) (frameQueue s1)"
    using assms(2) set_foldl_enqueue [of "frameQueue s" "slices fs bytes"]
    by (auto simp: s1_def assembler_inv_def list_all_iff)
  have d: "concat (assembled s1) @ buffer s1 = concat (assembled s) @ bytes"
    using slices_concat [OF fs0, of bytes] by (simp add: s1_def)
  define s' where "s' = (if \<not> isProcessing s1 then processNextFrame cfg s1 else s1)"
  have q: "set (frameQueue s') \<subseteq> set (frameQueue s1)"
    using set_tl_subset [of "frameQueue s1"] by (auto simp: s'_def processNextFrame_fields)
  have e: "buffer s' = buffer s1" "assembled s' = assembled s1"
    by (simp_all add: s'_def processNextFrame_fields)
  have "assembler_inv fs s'"
    using a b c q e by (auto simp: assembler_inv_def list_all_iff)
  moreover have "dispatch cfg ev s = Inr s'"
    using l by (simp add: Data dispatch_def onData_def s'_def fs_def bytes_def)
  moreover have "concat (assembled s') @ buffer s' = concat (assembled s) @ buffer s @ dataOf [ev]"
    using d e by (simp add: Data bytes_def)
  ultimately show ?thesis by (auto simp: fs_def)
next
  case (KeyPress key)
  then obtain s' where d: "dispatch cfg ev s = Inr s'" by (simp add: dispatch_def)
  from dispatch_no_data [OF d] KeyPress assms(2) set_tl_subset [of "frameQueue s"]
  have "assembler_inv (frameSize cfg) s' \<and> buffer s' = buffer s \<and> assembled s' = assembled s"
    by (auto simp: assembler_inv_def list_all_iff)
  with d KeyPress show ?thesis by auto
next
  case (FfmpegError x)
  then obtain s' where d: "dispatch cfg ev s = Inr s'" by (simp add: dispatch_def)
  from dispatch_no_data [OF d] FfmpegError assms(2) set_tl_subset [of "frameQueue s"]
  have "assembler_inv (frameSize cfg) s' \<and> buffer s' = buffer s \<and> assembled s' = assembled s"
    by (auto simp: assembler_inv_def list_all_iff)
  with d FfmpegError show ?thesis by auto
next
  case FfmpegClose
  then obtain s' where d: "dispatch cfg ev s = Inr s'" by (simp add: dispatch_def)
  from dispatch_no_data [OF d] FfmpegClose assms(2) set_tl_subset [of "frameQueue s"]
  have "assembler_inv (frameSize cfg) s' \<and> buffer s' = buffer s \<and> assembled s' = assembled s"
    by (auto simp: assembler_inv_def list_all_iff)
  with d FfmpegClose show ?thesis by auto
next
  case AudioError
  with assms(3) show ?thesis by simp
next
  case Immediate
  then obtain s' where d: "dispatch cfg ev s = Inr s'" by (simp add: dispatch_def)
  from dispatch_no_data [OF d] Immediate assms(2) set_tl_subset [of "frameQueue s"]
  have "assembler_inv (frameSize cfg) s' \<and> buffer s' = buffer s \<and> assembled s' = assembled s"
    by (auto simp: assembler_inv_def list_all_iff)
  with d Immediate show ?thesis by auto
next
  case Timeout
  then obtain s' where d: "dispatch cfg ev s = Inr s'" by (simp add: dispatch_def)
  from dispatch_no_data [OF d] Timeout assms(2) set_tl_subset [of "frameQueue s"]
  have "assembler_inv (frameSize cfg) s' \<and> buffer s' = buffer s \<and> assembled s' = assembled s"
    by (auto simp: assembler_inv_def list_all_iff)
  with d Timeout show ?thesis by auto
qed

lemma assembler_run:
  assumes "0 < frameSize cfg" "assembler_inv (frameSize cfg) s" "AudioError \<notin> set evs"
  shows "\<exists>s'. run cfg evs s = Inr s' \<and> assembler_inv (frameSize cfg) s' \<and>
           concat (assembled s') @ buffer s' = concat (assembled s) @ buffer s @ dataOf evs"
  using assms(2,3)
proof (induction evs arbitrary: s)
  case Nil
  then show ?case by simp
next
  case (Cons ev evs)
  from Cons.prems(2) have ne: "ev \<noteq> AudioError" and rest: "AudioError \<notin> set evs" by auto
  from assembler_dispatch [OF assms(1) Cons.prems(1) ne] obtain s1 where
    d: "dispatch cfg ev s = Inr s1" and i: "assembler_inv (frameSize cfg) s1"
    and c: "concat (assembled s1) @ buffer s1 = concat (assembled s) @ buffer s @ dataOf [ev]"
    by blast
  from Cons.IH [OF i rest] obtain s' where
    r: "run cfg evs s1 = Inr s'" and i': "assembler_inv (frameSize cfg) s'"
    and c': "concat (assembled s') @ buffer s' = concat (assembled s1) @ buffer s1 @ dataOf evs"
    by blast
  have "concat (assembled s') @ buffer s' = concat (assembled s) @ buffer s @ dataOf (ev # evs)"
    using c c' by (subst dataOf_Cons) (metis append.assoc)
  with d r i' show ?case by simp
qed

lemma assembleLoop_diverges:
  "frameSize cfg = 0 \<Longrightarrow> dispatch cfg (Data chunk) s = Inl NeverReturns"
  by (simp add: dispatch_def onData_def assembleLoop_zero)

lemma enqueue_newest: "length q \<le> 30 \<Longrightarrow> enqueue q f = newest 30 (q @ [f])"
proof (cases "length q = 30")
  case True
  then have "length (q @ [f]) - 30 = Suc 0" by simp
  then have "newest 30 (q @ [f]) = tl (q @ [f])" by (simp only: newest_def drop_Suc drop_0)
  then show ?thesis using True by (simp add: enqueue_def Let_def)
next
  case False
  assume "length q \<le> 30"
  with False have "length q < 30" by simp
  then show ?thesis by (simp add: enqueue_def newest_def Let_def)
qed

lemma newest_append: "newest n (newest n a @ b) = newest n (a @ b)"
proof (cases "n \<le> length a")
  case True
  then show ?thesis by (simp add: newest_def add.commute)
next
  case False
  then show ?thesis by (simp add: newest_def)
qed

lemma length_newest: "length (newest n xs) \<le> n"
  by (simp add: newest_def)

lemma foldl_enqueue:
  "length q \<le> 30 \<Longrightarrow> foldl enqueue q xs = newest 30 (q @ xs)"
proof (induction xs arbitrary: q)
  case Nil
  then show ?case by (simp add: newest_def)
next
  case (Cons x xs)
  have l: "length (enqueue q x) \<le> 30" using Cons.prems by (rule enqueue_length)
  have "foldl enqueue (enqueue q x) xs = newest 30 (enqueue q x @ xs)" using l by (rule Cons.IH)
  also have "\<dots> = newest 30 (newest 30 (q @ [x]) @ xs)"
    by (simp only: enqueue_newest [OF Cons.prems])
  also have "\<dots> = newest 30 ((q @ [x]) @ xs)" by (rule newest_append)
  finally show ?case by simp
qed

lemma suffix_newest: "suffix (newest n xs) xs"
  unfolding newest_def by (rule suffix_drop)

lemma onData_step:
  assumes "0 < frameSize cfg" "\<not> isProcessing s" "length (frameQueue s) \<le> 30"
  shows "\<exists>s'. dispatch cfg (Data chunk) s = Inr s' \<and>
           frameQueue s' =
             tl (newest 30 (frameQueue s @ slices (frameSize cfg) (buffer s @ chunk))) \<and>
           out s' = out s @
             (case newest 30 (frameQueue s @ slices (frameSize cfg) (buffer s @ chunk)) of
                [] \<Rightarrow> []
              | f # fs \<Rightarrow> (if firstFrame s then [ConsoleClear, StdoutWrite hideCursor] else []) @
                           [StdoutWrite (renderText cfg f)]) \<and>
           assembled s' = assembled s @ slices (frameSize cfg) (buffer s @ chunk) \<and>
           \<not> isProcessing s'"
  using assms(2)
  by (simp add: dispatch_def onData_def assembleLoop_eq [OF assms(1)] foldl_enqueue [OF assms(3)]
        processNextFrame_def renderFrame_def emit_def Let_def split: list.splits)

lemma isProcessing_fields:
  "isProcessing (processNextFrame cfg s) = isProcessing s"
  "isProcessing (cleanup cfg s) = isProcessing s"
  by (simp_all add: processNextFrame_def renderFrame_def cleanup_def emit_def Let_def)

lemma dispatch_idle:
  assumes "dispatch cfg ev s = Inr s'" "\<forall>chunk. ev \<noteq> Data chunk"
  shows "isProcessing s' = isProcessing s"
  using assms
  by (cases ev)
     (auto simp: dispatch_def onKeyPress_def onError_def onClose_def resolve_def emit_def Let_def
           isProcessing_fields split: if_splits)

lemma queue_inv_dispatch:
  assumes "queue_inv s" "dispatch cfg ev s = Inr s'"
  shows "queue_inv s'"
proof (cases "\<exists>chunk. ev = Data chunk")
  case True
  then obtain chunk where Data: "ev = Data chunk" by blast
  show ?thesis
  proof (cases "frameSize cfg = 0")
    case True
    from assembleLoop_diverges [OF True, of chunk s] assms(2) Data show ?thesis by simp
  next
    case False
    then have fs: "0 < frameSize cfg" by simp
    from assms(1) have np: "\<not> isProcessing s" and l: "length (frameQueue s) \<le> 30"
      and sf: "suffix (frameQueue s) (assembled s)" by (simp_all add: queue_inv_def)
    define sl where "sl = slices (frameSize cfg) (buffer s @ chunk)"
    from onData_step [OF fs np l, of chunk] assms(2) Data
    have q: "frameQueue s' = tl (newest 30 (frameQueue s @ sl))"
      and a: "assembled s' = assembled s @ sl" and p: "\<not> isProcessing s'"
      by (auto simp: sl_def)
    have "suffix (frameQueue s @ sl) (assembled s @ sl)" using sf by (auto simp: suffix_def)
    then have "suffix (newest 30 (frameQueue s @ sl)) (assembled s @ sl)"
      using suffix_newest suffix_order.trans by blast
    then have "suffix (tl (newest 30 (frameQueue s @ sl))) (assembled s @ sl)"
      using suffix_tl suffix_order.trans by blast
    moreover have "length (tl (newest 30 (frameQueue s @ sl))) \<le> 30"
      using length_newest [of 30 "frameQueue s @ sl"] by simp
    ultimately show ?thesis using p by (simp add: queue_inv_def q a)
  qed
next
  case False
  then have nd: "\<forall>chunk. ev \<noteq> Data chunk" by simp
  from assms(1) have np: "\<not> isProcessing s" and l: "length (frameQueue s) \<le> 30"
    and sf: "suffix (frameQueue s) (assembled s)" by (simp_all add: queue_inv_def)
  note f = dispatch_no_data [OF assms(2) nd]
  have p: "\<not> isProcessing s'" using dispatch_idle [OF assms(2) nd] np by simp
  have sq: "suffix (frameQueue s') (frameQueue s)" using f suffix_tl [of "frameQueue s"] by auto
  then have "suffix (frameQueue s') (assembled s')" using sf f suffix_order.trans by auto
  moreover have "length (frameQueue s') \<le> length (frameQueue s)" using sq by (rule suffix_length_le)
  ultimately show ?thesis using p l by (simp add: queue_inv_def)
qed

lemma queue_inv_run:
  assumes "run cfg evs (init cfg) = Inr s"
  shows "queue_inv s"
proof -
  have "queue_inv (init cfg)" by (simp add: queue_inv_def init_def)
  with queue_inv_dispatch show ?thesis using assms by (rule run_invariant)
qed

lemma cancel_keys: "isCancelKey (0x03 # rest)" "isCancelKey [0x71]" "isCancelKey [0x51]"
  by (simp_all add: isCancelKey_def byteAt_def toLowerCase_def)

text \<open>
  What a cancel key does while the listener is attached and teardown has not run: the
  teardown effects, with a kill for each subprocess, and one pending timer; the queue and the
  scheduled render steps are left as they are. The timer resolves the promise.
\<close>

lemma cancel_key_teardown:
  assumes "keyListener s" "\<not> cleanedUp s" "\<not> ffmpegKilled s" "\<not> audioKilled s" "isCancelKey key"
  shows "\<exists>s'. dispatch cfg (KeyPress key) s = Inr s' \<and> cleanedUp s' \<and>
           out s' = out s @ (if isTTY cfg then [SetRawMode False, StdinPause] else []) @
                      [RemoveKeyListener, Kill Ffmpeg, Kill AudioPlayer,
                       StdoutWrite showCursor, ConsoleClear] \<and>
           timers s' = timers s + 1 \<and> frameQueue s' = frameQueue s \<and>
           immediates s' = immediates s \<and> \<not> keyListener s'"
  using assms by (simp add: dispatch_def onKeyPress_def cleanup_def emit_def Let_def)

lemma timeout_resolves:
  assumes "0 < timers s"
  shows "\<exists>s'. dispatch cfg Timeout s = Inr s' \<and> resolved s'"
  using assms by (simp add: dispatch_def resolve_def)

text \<open>
  A session used as an example below: width 4, so one row and frames of 12 bytes; a chunk with
  two black frames, the key \<open>Q\<close>, and the render step that the data callback scheduled.
\<close>

lemma two_black_frames: "slices 12 (replicate 24 (0::byte)) = [replicate 12 0, replicate 12 0]"
  by code_simp

lemma toLowerCase_Q: "toLowerCase 0x51 = 0x71"
  by (simp add: toLowerCase_def)

lemmas session_simps =
  dispatch_def onData_def processNextFrame_def renderFrame_def emit_def Let_def init_def
  onKeyPress_def onClose_def onError_def resolve_def isCancelKey_def byteAt_def toLowerCase_Q
  cleanup_def enqueue_def

lemma example_session:
  "run (playVideoAscii_config 4 (Some ''standard'') True False)
        [Data (replicate 24 0), KeyPress [0x51], Immediate]
        (init (playVideoAscii_config 4 (Some ''standard'') True False)) =
   Inr \<lparr>buffer = [], firstFrame = False, frameCount = 2, frameQueue = [],
         isProcessing = False, cleanedUp = True, ffmpegKilled = True, audioKilled = True,
         keyListener = False, immediates = 0, timers = 1, resolved = False,
         assembled = [replicate 12 0, replicate 12 0],
         out = [SetRawMode True, StdinResume, ConsoleClear, StdoutWrite hideCursor,
                StdoutWrite (renderText (playVideoAscii_config 4 (Some ''standard'') True False)
                               (replicate 12 0)),
                SetRawMode False, StdinPause, RemoveKeyListener, Kill Ffmpeg, Kill AudioPlayer,
                StdoutWrite showCursor, ConsoleClear,
                StdoutWrite (renderText (playVideoAscii_config 4 (Some ''standard'') True False)
                               (replicate 12 0))]\<rparr>"
  unfolding config_4 by (simp add: session_simps assembleLoop_eq two_black_frames)

lemma example_session_with_exit:
  "\<exists>s. run (playVideoAscii_config 4 (Some ''standard'') True False)
        [Data (replicate 24 0), KeyPress [0x51], FfmpegClose, FfmpegError True, Immediate, Timeout]
        (init (playVideoAscii_config 4 (Some ''standard'') True False)) = Inr s"
  unfolding config_4 by (simp add: session_simps assembleLoop_eq two_black_frames)

text \<open>
  A second session of width 4: a chunk of five bytes, a key that is no cancel key, and a chunk
  of 21 bytes completing two frames, of which the data callback renders the first.
\<close>

lemma ex_slices:
  "slices 12 [1, 2, 3, 4, 5 :: byte] = []"
  "slices 12 (1 # 2 # 3 # 4 # 5 # replicate 21 (7 :: byte)) = [[1, 2, 3, 4, 5, 7, 7, 7, 7, 7, 7, 7], replicate 12 7]"
  by code_simp+

lemma example_assembly:
  "run (playVideoAscii_config 4 (Some ''standard'') True False)
        [Data [1, 2, 3, 4, 5], KeyPress [0x41], Data (replicate 21 7)]
        (init (playVideoAscii_config 4 (Some ''standard'') True False)) =
   Inr \<lparr>buffer = replicate 2 7, firstFrame = False, frameCount = 1, frameQueue = [replicate 12 7],
         isProcessing = False, cleanedUp = False, ffmpegKilled = False, audioKilled = False,
         keyListener = True, immediates = 1, timers = 0, resolved = False,
         assembled = [[1, 2, 3, 4, 5, 7, 7, 7, 7, 7, 7, 7], replicate 12 7],
         out = [SetRawMode True, StdinResume, ConsoleClear, StdoutWrite hideCursor,
                StdoutWrite (renderText (playVideoAscii_config 4 (Some ''standard'') True False)
                               [1, 2, 3, 4, 5, 7, 7, 7, 7, 7, 7, 7])]\<rparr>"
  unfolding config_4 by (simp add: session_simps assembleLoop_eq ex_slices toLowerCase_def)

lemma ex_slices2:
  "slices 12 (replicate 2 7 @ replicate 22 (9 :: byte)) =
     [[7, 7, 9, 9, 9, 9, 9, 9, 9, 9, 9, 9], replicate 12 9]"
  by code_simp

text \<open>
  Teardown is guarded: with the guard set it changes nothing, and it sets the guard. In every
  session that hands control back each subprocess is killed once if teardown has run and
  never otherwise, and likewise the cursor is shown and the key listener removed once,
  whatever the number of triggers. The decoder's error and close callbacks run teardown and
  resolve the promise, and a cancel key delivered while the listener is attached runs
  teardown.
\<close>

lemma teardown_guard:
  "(cleanedUp s \<longrightarrow> cleanup cfg s = s) \<and>
   cleanedUp (cleanup cfg s) \<and> cleanup cfg (cleanup cfg s) = cleanup cfg s \<and>
   (run cfg evs (init cfg) = Inr s' \<longrightarrow>
      count_list (out s') (Kill Ffmpeg) = (if cleanedUp s' then 1 else 0) \<and>
      count_list (out s') (Kill AudioPlayer) = (if cleanedUp s' then 1 else 0) \<and>
      count_list (out s') (StdoutWrite showCursor) = (if cleanedUp s' then 1 else 0) \<and>
      count_list (out s') RemoveKeyListener = (if cleanedUp s' then 1 else 0)) \<and>
   (run cfg evs (init cfg) = Inr s' \<and> (\<exists>ev\<in>set evs. isDecoderEnd ev) \<longrightarrow>
      cleanedUp s' \<and> resolved s') \<and>
   (\<exists>s''. dispatch cfg (FfmpegError enoent) s1 = Inr s'' \<and> cleanedUp s'' \<and> resolved s'') \<and>
   (\<exists>s''. dispatch cfg FfmpegClose s1 = Inr s'' \<and> cleanedUp s'' \<and> resolved s'') \<and>
   (keyListener s1 \<and> isCancelKey key \<longrightarrow>
      (\<exists>s''. dispatch cfg (KeyPress key) s1 = Inr s'' \<and> cleanedUp s''))"
proof -
  have c: "run cfg evs (init cfg) = Inr s' \<longrightarrow>
      count_list (out s') (Kill Ffmpeg) = (if cleanedUp s' then 1 else 0) \<and>
      count_list (out s') (Kill AudioPlayer) = (if cleanedUp s' then 1 else 0) \<and>
      count_list (out s') (StdoutWrite showCursor) = (if cleanedUp s' then 1 else 0) \<and>
      count_list (out s') RemoveKeyListener = (if cleanedUp s' then 1 else 0)"
    using effects_inv_run [of cfg evs s'] by (simp add: effects_inv_def)
  have d: "run cfg evs (init cfg) = Inr s' \<and> (\<exists>ev\<in>set evs. isDecoderEnd ev) \<longrightarrow>
      cleanedUp s' \<and> resolved s'"
    using run_decoder_end [of cfg evs "init cfg" s'] by blast
  have e: "\<exists>s''. dispatch cfg (FfmpegError enoent) s1 = Inr s'' \<and> cleanedUp s'' \<and> resolved s''"
    by (rule dispatch_decoder_end) (simp add: isDecoderEnd_def)
  have f: "\<exists>s''. dispatch cfg FfmpegClose s1 = Inr s'' \<and> cleanedUp s'' \<and> resolved s''"
    by (rule dispatch_decoder_end) (simp add: isDecoderEnd_def)
  have g: "keyListener s1 \<and> isCancelKey key \<longrightarrow>
      (\<exists>s''. dispatch cfg (KeyPress key) s1 = Inr s'' \<and> cleanedUp s'')"
    by (simp add: dispatch_def onKeyPress_def cleanup_fields)
  have i: "cleanup cfg (cleanup cfg s) = cleanup cfg s"
    by (rule cleanup_fields(1)) (rule cleanup_fields(2))
  show ?thesis using cleanup_fields(1) [of s cfg] cleanup_fields(2) [of cfg s] i c d e f g
    by blast
qed

section \<open>The claims\<close>

text \<open>
  Claim C9, as stated, is for every positive integer width. The program computes in doubles,
  and at a large width the product rounds up across an integer: the derived height is one
  above the floor of \<open>width * 9/16 * 0.55\<close>.
\<close>

theorem height_not_exact_floor_at_large_width:
  "(0::int) < 100000000000181 \<and>
   height_of 100000000000181 = 30937500000056 \<and>
   \<lfloor>(of_int 100000000000181 :: rat) * (9 / 16) * (55 / 100)\<rfloor> = 30937500000055 \<and>
   height_of 100000000000181 \<noteq> \<lfloor>(of_int 100000000000181 :: rat) * (9 / 16) * (55 / 100)\<rfloor>"
  by code_simp

text \<open>
  Claim C9, amended. For every positive integer width up to \<open>2^20\<close> the derived height is the
  floor of \<open>width * 9/16 * 0.55\<close> and the frame size is \<open>width * height * 3\<close>; a session of
  width 80 has height 24 and frames of 5760 bytes.
\<close>

theorem derived_height_frameSize:
  "(0 < w \<and> w \<le> 1048576 \<longrightarrow>
        height_of w = \<lfloor>(of_int w :: rat) * (9 / 16) * (55 / 100)\<rfloor> \<and>
        int (frameSize_of w (height_of w)) = w * height_of w * 3) \<and>
   height (playVideoAscii_config 80 name tty win) = 24 \<and>
   frameSize (playVideoAscii_config 80 name tty win) = 5760"
proof (intro conjI impI)
  assume w: "0 < w \<and> w \<le> 1048576"
  then have h: "height_of w = (99 * w) div 320" by (simp add: height_of_exact)
  have "(of_int w :: rat) * (9 / 16) * (55 / 100) = of_int (99 * w) / of_int 320" by simp
  then have "\<lfloor>(of_int w :: rat) * (9 / 16) * (55 / 100)\<rfloor> = (99 * w) div 320"
    by (simp only: floor_divide_of_int_eq)
  with h show "height_of w = \<lfloor>(of_int w :: rat) * (9 / 16) * (55 / 100)\<rfloor>" by simp
  have "99 * w div 320 \<le> 320 * w div 320" using w by (intro zdiv_mono1) simp_all
  moreover have "0 \<le> 99 * w div 320" using w by (simp add: pos_imp_zdiv_nonneg_iff)
  ultimately have "0 \<le> height_of w" "height_of w \<le> 1048576" using w h by simp_all
  then show "int (frameSize_of w (height_of w)) = w * height_of w * 3"
    using w by (simp add: frameSize_of_exact)
next
  show "height (playVideoAscii_config 80 name tty win) = 24"
    by (simp add: playVideoAscii_config_def height_of_80)
next
  have "int (frameSize_of 80 24) = 80 * 24 * 3" by (rule frameSize_of_exact) simp_all
  then have "frameSize_of 80 24 = 5760" by simp
  then show "frameSize (playVideoAscii_config 80 name tty win) = 5760"
    by (simp add: playVideoAscii_config_def height_of_80)
qed

theorem derived_height_frameSize_witness:
  "(0::int) < 4 \<and> (4::int) \<le> 1048576 \<and>
   height_of 4 = \<lfloor>(of_int 4 :: rat) * (9 / 16) * (55 / 100)\<rfloor> \<and> height_of 4 = 1 \<and>
   frameSize_of 4 (height_of 4) = 12"
proof -
  have a: "(0::int) < 4 \<and> (4::int) \<le> 1048576" by simp
  note t = derived_height_frameSize [of 4 "Some ''standard''" True False,
      THEN conjunct1, rule_format, OF a]
  have b: "height_of 4 = \<lfloor>(of_int 4 :: rat) * (9 / 16) * (55 / 100)\<rfloor>"
    using t by (rule conjunct1)
  have c: "int (frameSize_of 4 (height_of 4)) = 4 * height_of 4 * 3"
    using t by (rule conjunct2)
  have d: "\<lfloor>(of_int 4 :: rat) * (9 / 16) * (55 / 100)\<rfloor> = 1"
    by (rule floor_unique) simp_all
  have e: "height_of 4 = 1" using b d by simp
  have "int (frameSize_of 4 (height_of 4)) = 12" using c e by simp
  then have "frameSize_of 4 (height_of 4) = 12" by simp
  with a b e show ?thesis by (intro conjI) simp_all
qed




text \<open>
  Claim C5, as stated, asks for at least two characters in every ramp of the table. The
  \<open>solid\<close> ramp has one.
\<close>

theorem solid_ramp_has_one_character:
  "map_of CHARSETS ''solid'' = Some solid \<and> selectChars (Some ''solid'') = String solid \<and>
   length solid = 1 \<and> \<not> 2 \<le> length solid"
proof -
  have m: "map_of CHARSETS ''solid'' = Some solid" by (simp add: CHARSETS_def)
  from m selectChars_named [OF m] length_ramps(4) show ?thesis by simp
qed

text \<open>
  Claim C5, amended. Every ramp of the named-charset table has at least one character, and
  every ramp but \<open>solid\<close> at least two; for every pixel the computed index lies within the
  ramp, so the glyph is a character of the ramp.
\<close>

theorem ramp_nonempty_index_in_bounds:
  assumes "map_of CHARSETS name = Some ramp"
  shows "1 \<le> length ramp \<and> (name \<noteq> ''solid'' \<longrightarrow> 2 \<le> length ramp) \<and>
         0 \<le> charIndex (brightness r g b) (length ramp) \<and>
         charIndex (brightness r g b) (length ramp) < int (length ramp) \<and>
         glyph (String ramp) (Some r) (Some g) (Some b) =
           Some (ramp ! nat (charIndex (brightness r g b) (length ramp)))"
proof -
  have l: "1 \<le> length ramp \<and> (name \<noteq> ''solid'' \<longrightarrow> 2 \<le> length ramp) \<and> length ramp \<le> 10"
    using CHARSETS_cases [OF assms] length_ramps by auto
  then have pos: "0 < length ramp" by linarith
  have ne: "ramp \<noteq> []" using pos by auto
  have lt: "length ramp < 2 ^ 53" using l by simp
  show ?thesis
    using l charIndex_bounds [OF pos lt, of r g b] glyph_in_ramp(1) [OF ne lt, of r g b] by blast
qed

theorem ramp_nonempty_index_in_bounds_witness:
  "map_of CHARSETS ''solid'' = Some solid \<and> 1 \<le> length solid \<and>
   0 \<le> charIndex (brightness 255 255 255) (length solid) \<and>
   charIndex (brightness 255 255 255) (length solid) < int (length solid) \<and>
   glyph (String solid) (Some 255) (Some 255) (Some 255) =
     Some (solid ! nat (charIndex (brightness 255 255 255) (length solid))) \<and>
   map_of CHARSETS ''simple'' = Some simple \<and> ''simple'' \<noteq> ''solid'' \<and> 2 \<le> length simple"
proof -
  have m: "map_of CHARSETS ''solid'' = Some solid" by (simp add: CHARSETS_def)
  have n: "map_of CHARSETS ''simple'' = Some simple" by (simp add: CHARSETS_def)
  have d: "''simple'' \<noteq> ''solid''" by simp
  from ramp_nonempty_index_in_bounds [OF n, of 0 0 0] d have "2 \<le> length simple" by blast
  with m n d ramp_nonempty_index_in_bounds [OF m, of 255 255 255] show ?thesis by blast
qed

text \<open>
  Claim C10 says that any charset name outside the table falls back to the standard ramp.
  The name \<open>constructor\<close> is outside the table, yet the property read returns the inherited
  built-in function, which is truthy: no fallback happens, the value has no indexed
  characters, and every cell prints the text \<open>undefined\<close>.
\<close>

theorem inherited_name_defeats_fallback:
  "selectChars (Some ''constructor'') = Inherited \<and>
   selectChars (Some ''constructor'') \<noteq> String standard \<and>
   glyph (selectChars (Some ''constructor'')) (Some r) (Some g) (Some b) = None \<and>
   showChar (glyph (selectChars (Some ''constructor'')) (Some r) (Some g) (Some b)) = str ''undefined''"
proof -
  have "selectChars (Some ''constructor'') = Inherited"
    by (simp add: selectChars_def getProperty_def truthy_def CHARSETS_def Object_prototype_keys_def)
  then show ?thesis by (simp add: glyph_def showChar_def)
qed

text \<open>
  Claim C6. For a frame of \<open>width * height * 3\<close> bytes and a non-empty ramp, the text
  written for the frame is the cursor-home escape, then for each row the cells of its pixels
  (the colour escape \<open>ESC[38;2;R;G;Bm\<close> with the exact decimal components, then the glyph)
  followed by a newline, then the colour-reset escape. Reading a printed component back gives
  the byte. An all-black frame with the standard ramp renders every cell as
  \<open>ESC[38;2;0;0;0m\<close> and a space, the first character of the ramp.
\<close>

theorem renderText_structure:
  assumes "chars cfg = String ramp" "ramp \<noteq> []" "length ramp < 2 ^ 53"
    and "length frame = width cfg * height cfg * 3"
  shows "renderText cfg frame =
           (ESC # str ''[H'') @
           concat (map (\<lambda>y. concat (map (\<lambda>x. colorCell ramp (frame ! ((y * width cfg + x) * 3))
                                           (frame ! ((y * width cfg + x) * 3 + 1))
                                           (frame ! ((y * width cfg + x) * 3 + 2)))
                                      [0..<width cfg]) @ [newline]) [0..<height cfg]) @
           (ESC # str ''[0m'') \<and>
         decimalValue (numToString (unat r)) = unat r \<and>
         (ramp = standard \<and> frame = replicate (width cfg * height cfg * 3) 0 \<longrightarrow>
            renderText cfg frame =
              (ESC # str ''[H'') @
              concat (replicate (height cfg)
                        (concat (replicate (width cfg) (ESC # str ''[38;2;0;0;0m '')) @ [newline])) @
              (ESC # str ''[0m''))"
  using renderText_cells [OF assms] renderText_black [of cfg] assms(1) decimalValue_numToString [of "unat r"]
  by (simp add: cursorHome_def colorReset_def)

theorem renderText_structure_witness:
  "chars (playVideoAscii_config 4 (Some ''standard'') True False) = String standard \<and>
   standard \<noteq> [] \<and> length standard < 2 ^ 53 \<and>
   length (replicate 12 (0::byte)) =
     width (playVideoAscii_config 4 (Some ''standard'') True False) *
     height (playVideoAscii_config 4 (Some ''standard'') True False) * 3 \<and>
   renderText (playVideoAscii_config 4 (Some ''standard'') True False) (replicate 12 0) =
     (ESC # str ''[H'') @
     concat (replicate 1 (concat (replicate 4 (ESC # str ''[38;2;0;0;0m '')) @ [newline])) @
     (ESC # str ''[0m'')"
proof -
  let ?cfg = "playVideoAscii_config 4 (Some ''standard'') True False"
  have a: "chars ?cfg = String standard" by (simp add: config_4)
  have b: "standard \<noteq> []" by (rule ramps_nonempty)
  have c: "length standard < 2 ^ 53" by (simp add: length_ramps)
  have d: "length (replicate 12 (0::byte)) = width ?cfg * height ?cfg * 3" by (simp add: config_4)
  have e: "replicate 12 (0::byte) = replicate (width ?cfg * height ?cfg * 3) 0" by (simp add: config_4)
  from renderText_structure [OF a b c d, of 0] e
  have "renderText ?cfg (replicate 12 0) =
      (ESC # str ''[H'') @
      concat (replicate (height ?cfg) (concat (replicate (width ?cfg) (ESC # str ''[38;2;0;0;0m '')) @ [newline])) @
      (ESC # str ''[0m'')" by blast
  then have "renderText ?cfg (replicate 12 0) =
      (ESC # str ''[H'') @
      concat (replicate 1 (concat (replicate 4 (ESC # str ''[38;2;0;0;0m '')) @ [newline])) @
      (ESC # str ''[0m'')" by (simp add: config_4)
  with a b c d show ?thesis by blast
qed

text \<open>
  Claim C2. With a positive frame size and an audio player that launches, whatever the
  chunking of the decoder's output and whatever other events come in between, every callback
  returns, the frames assembled so far
  are exactly the consecutive whole slices of \<open>frameSize\<close> bytes of the concatenated chunks,
  in order, each of exactly \<open>frameSize\<close> bytes; their number is \<open>total div frameSize\<close>; the
  last \<open>total mod frameSize\<close> bytes stay in the buffer (none when the total is a multiple of
  the frame size). The queue is a tail of the assembled sequence, so it holds whole frames in
  their order. The next data callback pushes the frames that its chunk completes, in order,
  behind the queued ones; it leaves in the queue the newest 30 of them but the first, and
  writes the rendering of that first one, after the session setup if no frame had been
  rendered.
\<close>

theorem frame_assembler:
  assumes "0 < frameSize cfg" "AudioError \<notin> set evs"
  shows "\<exists>s s'. run cfg evs (init cfg) = Inr s \<and>
           assembled s = slices (frameSize cfg) (dataOf evs) \<and>
           buffer s = drop (frameSize cfg * (length (dataOf evs) div frameSize cfg)) (dataOf evs) \<and>
           concat (assembled s) @ buffer s = dataOf evs \<and>
           list_all (\<lambda>f. length f = frameSize cfg) (assembled s) \<and>
           length (assembled s) = length (dataOf evs) div frameSize cfg \<and>
           length (buffer s) = length (dataOf evs) mod frameSize cfg \<and>
           list_all (\<lambda>f. f \<in> set (assembled s)) (frameQueue s) \<and>
           suffix (frameQueue s) (assembled s) \<and>
           dispatch cfg (Data chunk) s = Inr s' \<and>
           assembled s' = assembled s @ slices (frameSize cfg) (buffer s @ chunk) \<and>
           frameQueue s' =
             tl (newest 30 (frameQueue s @ slices (frameSize cfg) (buffer s @ chunk))) \<and>
           out s' = out s @
             (case newest 30 (frameQueue s @ slices (frameSize cfg) (buffer s @ chunk)) of
                [] \<Rightarrow> []
              | f # fs \<Rightarrow> (if firstFrame s then [ConsoleClear, StdoutWrite hideCursor] else []) @
                           [StdoutWrite (renderText cfg f)])"
proof -
  have "assembler_inv (frameSize cfg) (init cfg)"
    using assms by (simp add: assembler_inv_def init_def)
  from assembler_run [OF assms(1) this assms(2)] obtain s where
    r: "run cfg evs (init cfg) = Inr s" and i: "assembler_inv (frameSize cfg) s"
    and c: "concat (assembled s) @ buffer s = dataOf evs"
    by (auto simp: init_def)
  from i have la: "\<forall>f\<in>set (assembled s). length f = frameSize cfg"
    and lb: "length (buffer s) < frameSize cfg"
    by (simp_all add: assembler_inv_def list_all_iff)
  from slices_unique [OF assms(1) la lb]
  have u: "slices (frameSize cfg) (dataOf evs) = assembled s"
    "drop (frameSize cfg * (length (dataOf evs) div frameSize cfg)) (dataOf evs) = buffer s"
    by (simp_all add: c)
  have n: "length (assembled s) = length (dataOf evs) div frameSize cfg"
    using u(1) length_slices [of "frameSize cfg" "dataOf evs"] by simp
  have m: "length (buffer s) = length (dataOf evs) mod frameSize cfg"
    using u(2) remainder_length [OF assms(1), of "dataOf evs"] by simp
  from queue_inv_run [OF r] have np: "\<not> isProcessing s" and l: "length (frameQueue s) \<le> 30"
    and sf: "suffix (frameQueue s) (assembled s)" by (simp_all add: queue_inv_def)
  from onData_step [OF assms(1) np l, of chunk] obtain s' where
    d: "dispatch cfg (Data chunk) s = Inr s'"
    and a': "assembled s' = assembled s @ slices (frameSize cfg) (buffer s @ chunk)"
    and q': "frameQueue s' =
             tl (newest 30 (frameQueue s @ slices (frameSize cfg) (buffer s @ chunk)))"
    and o': "out s' = out s @
             (case newest 30 (frameQueue s @ slices (frameSize cfg) (buffer s @ chunk)) of
                [] \<Rightarrow> []
              | f # fs \<Rightarrow> (if firstFrame s then [ConsoleClear, StdoutWrite hideCursor] else []) @
                           [StdoutWrite (renderText cfg f)])"
    by blast
  have p1: "assembled s = slices (frameSize cfg) (dataOf evs)" using u(1) by simp
  have p2: "buffer s = drop (frameSize cfg * (length (dataOf evs) div frameSize cfg)) (dataOf evs)"
    using u(2) by simp
  have p3: "list_all (\<lambda>f. length f = frameSize cfg) (assembled s)"
    and p4: "list_all (\<lambda>f. f \<in> set (assembled s)) (frameQueue s)"
    using i by (simp_all add: assembler_inv_def)
  from r p1 p2 c p3 n m p4 sf d a' q' o' show ?thesis by blast
qed

theorem frame_assembler_witness:
  "0 < frameSize (playVideoAscii_config 4 (Some ''standard'') True False) \<and>
   AudioError \<notin> set [Data [1, 2, 3, 4, 5], KeyPress [0x41], Data (replicate 21 7)] \<and>
   (\<exists>s s'. run (playVideoAscii_config 4 (Some ''standard'') True False)
           [Data [1, 2, 3, 4, 5], KeyPress [0x41], Data (replicate 21 7)]
           (init (playVideoAscii_config 4 (Some ''standard'') True False)) = Inr s \<and>
        assembled s = [[1, 2, 3, 4, 5, 7, 7, 7, 7, 7, 7, 7], replicate 12 7] \<and>
        buffer s = [7, 7] \<and>
        frameQueue s = [replicate 12 7] \<and>
        dispatch (playVideoAscii_config 4 (Some ''standard'') True False)
          (Data (replicate 22 9)) s = Inr s' \<and>
        assembled s' = [[1, 2, 3, 4, 5, 7, 7, 7, 7, 7, 7, 7], replicate 12 7,
                        [7, 7, 9, 9, 9, 9, 9, 9, 9, 9, 9, 9], replicate 12 9] \<and>
        frameQueue s' = [[7, 7, 9, 9, 9, 9, 9, 9, 9, 9, 9, 9], replicate 12 9] \<and>
        out s' = out s @
          [StdoutWrite (renderText (playVideoAscii_config 4 (Some ''standard'') True False)
                          (replicate 12 7))])"
proof -
  let ?cfg = "playVideoAscii_config 4 (Some ''standard'') True False"
  let ?evs = "[Data [1, 2, 3, 4, 5], KeyPress [0x41], Data (replicate 21 7)]"
  have fs: "frameSize ?cfg = 12" by (simp add: config_4)
  then have pos: "0 < frameSize ?cfg" by simp
  have na: "AudioError \<notin> set ?evs" by simp
  from frame_assembler [OF pos na, of "replicate 22 9"] obtain s s' where
    r: "run ?cfg ?evs (init ?cfg) = Inr s"
    and d: "dispatch ?cfg (Data (replicate 22 9)) s = Inr s'"
    and a': "assembled s' = assembled s @ slices (frameSize ?cfg) (buffer s @ replicate 22 9)"
    and q': "frameQueue s' =
             tl (newest 30 (frameQueue s @ slices (frameSize ?cfg) (buffer s @ replicate 22 9)))"
    and o': "out s' = out s @
             (case newest 30 (frameQueue s @ slices (frameSize ?cfg) (buffer s @ replicate 22 9)) of
                [] \<Rightarrow> []
              | f # fs \<Rightarrow> (if firstFrame s then [ConsoleClear, StdoutWrite hideCursor] else []) @
                           [StdoutWrite (renderText ?cfg f)])"
    by blast
  from r have f: "buffer s = replicate 2 7" "frameQueue s = [replicate 12 7]" "\<not> firstFrame s"
    "assembled s = [[1, 2, 3, 4, 5, 7, 7, 7, 7, 7, 7, 7], replicate 12 7]"
    unfolding example_assembly by auto
  have b: "buffer s = [7, 7]" unfolding f(1) by (simp add: numeral_2_eq_2)
  have a2: "assembled s' = [[1, 2, 3, 4, 5, 7, 7, 7, 7, 7, 7, 7], replicate 12 7,
                        [7, 7, 9, 9, 9, 9, 9, 9, 9, 9, 9, 9], replicate 12 9]"
    unfolding a' fs f ex_slices2 by simp
  have q2: "frameQueue s' = [[7, 7, 9, 9, 9, 9, 9, 9, 9, 9, 9, 9], replicate 12 9]"
    unfolding q' fs f ex_slices2 by (simp add: newest_def)
  have o2: "out s' = out s @ [StdoutWrite (renderText ?cfg (replicate 12 7))]"
    unfolding o' fs f(1,2) ex_slices2 using f(3) by (simp add: newest_def)
  from pos na r f(4) b f(2) d a2 q2 o2 show ?thesis by blast
qed

text \<open>
  Claim C4. The queue never holds more than 30 frames. Pushing a frame onto a queue of 30
  drops the oldest one and keeps the others in order, with the new frame last; below 30 the
  frame is appended. A render step takes the frame at the head of the queue, the oldest, and
  writes that frame.
\<close>

theorem frameQueue_bounded:
  "(run cfg evs (init cfg) = Inr s \<longrightarrow> length (frameQueue s) \<le> 30) \<and>
   (length q \<le> 30 \<longrightarrow> length (enqueue q f) \<le> 30) \<and>
   (length q = 30 \<longrightarrow> enqueue q f = tl q @ [f] \<and> length (enqueue q f) = 30) \<and>
   (length q' < 30 \<longrightarrow> enqueue q' f = q' @ [f]) \<and>
   (\<not> isProcessing s0 \<and> frameQueue s0 = f # rest \<longrightarrow>
      frameQueue (processNextFrame cfg s0) = rest \<and>
      last (out (processNextFrame cfg s0)) = StdoutWrite (renderText cfg f))"
proof -
  have a: "length q = 30 \<longrightarrow> enqueue q f = tl q @ [f] \<and> length (enqueue q f) = 30"
    by (cases q) (simp_all add: enqueue_def Let_def)
  have b: "\<not> isProcessing s0 \<and> frameQueue s0 = f # rest \<longrightarrow>
      frameQueue (processNextFrame cfg s0) = rest \<and>
      last (out (processNextFrame cfg s0)) = StdoutWrite (renderText cfg f)"
    by (simp add: processNextFrame_def Let_def renderFrame_fields renderFrame_out)
  have c: "length q' < 30 \<longrightarrow> enqueue q' f = q' @ [f]"
    by (simp add: enqueue_def Let_def)
  show ?thesis using queue_run [of cfg evs s] enqueue_length [of q f] a b c
    by blast
qed

theorem frameQueue_bounded_witness:
  "(\<exists>s. run (playVideoAscii_config 4 (Some ''standard'') True False)
           [Data (replicate 24 0), KeyPress [0x51], Immediate]
           (init (playVideoAscii_config 4 (Some ''standard'') True False)) = Inr s \<and>
        length (frameQueue s) \<le> 30) \<and>
   length (replicate 30 [1::byte]) = 30 \<and>
   enqueue (replicate 30 [1]) [2] = tl (replicate 30 [1]) @ [[2]] \<and>
   length (enqueue (replicate 30 [1]) [2]) = 30 \<and>
   length ([] :: byte list list) < 30 \<and> enqueue [] [2] = [] @ [[2]] \<and>
   \<not> isProcessing ((init (playVideoAscii_config 4 (Some ''standard'') True False))
        \<lparr>frameQueue := [replicate 12 1, replicate 12 2]\<rparr>) \<and>
   frameQueue (processNextFrame (playVideoAscii_config 4 (Some ''standard'') True False)
       ((init (playVideoAscii_config 4 (Some ''standard'') True False))
          \<lparr>frameQueue := [replicate 12 1, replicate 12 2]\<rparr>)) = [replicate 12 2] \<and>
   last (out (processNextFrame (playVideoAscii_config 4 (Some ''standard'') True False)
       ((init (playVideoAscii_config 4 (Some ''standard'') True False))
          \<lparr>frameQueue := [replicate 12 1, replicate 12 2]\<rparr>))) =
     StdoutWrite (renderText (playVideoAscii_config 4 (Some ''standard'') True False) (replicate 12 1))"
proof -
  let ?cfg = "playVideoAscii_config 4 (Some ''standard'') True False"
  let ?evs = "[Data (replicate 24 0), KeyPress [0x51], Immediate]"
  let ?s0 = "(init ?cfg)\<lparr>frameQueue := [replicate 12 1, replicate 12 2]\<rparr>"
  from example_session obtain s where r: "run ?cfg ?evs (init ?cfg) = Inr s" by blast
  note t = frameQueue_bounded [of ?cfg ?evs s "replicate 30 [1]" "[2]" "[]" ?s0 "[replicate 12 2]"]
  have h1: "length (replicate 30 [1::byte]) = 30" by simp
  have h2: "length ([] :: byte list list) < 30" by simp
  have h3: "\<not> isProcessing ?s0 \<and> frameQueue ?s0 = replicate 12 1 # [replicate 12 2]"
    by (simp add: init_def)
  note t' = frameQueue_bounded [of ?cfg ?evs s "replicate 30 [1]" "replicate 12 1" "[]" ?s0 "[replicate 12 2]"]
  from t r have c1: "length (frameQueue s) \<le> 30" by blast
  from t h1 have c2: "enqueue (replicate 30 [1]) [2] = tl (replicate 30 [1]) @ [[2]]"
    "length (enqueue (replicate 30 [1]) [2]) = 30" by blast+
  from t h2 have c3: "enqueue [] [2] = [] @ [[2::byte]]" by blast
  from t' h3 have c4: "frameQueue (processNextFrame ?cfg ?s0) = [replicate 12 2]"
    "last (out (processNextFrame ?cfg ?s0)) = StdoutWrite (renderText ?cfg (replicate 12 1))"
    by blast+
  from r c1 h1 c2 h2 c3 h3 c4 show ?thesis by blast
qed

text \<open>
  Claim C7 says that on a decoder launch failure, as on a decoder exit, the playback call
  resolves without throwing. When the executables are not installed the audio player fails
  to launch too, and its error event has no listener: the exception is not caught, the
  process ends and the promise is never resolved, whatever events would follow. The decoder's
  own error callback, which resolves the promise, does not get to run. Separately, at the
  widths 1 to 3 the frame size is 0, the data callback never returns, and the decoder's exit
  is never handled.
\<close>

theorem audio_launch_failure_uncaught:
  "dispatch cfg AudioError s = Inl UncaughtException \<and>
   run cfg (AudioError # evs) (init cfg) = Inl UncaughtException \<and>
   run (playVideoAscii_config 80 (Some ''standard'') True False) [AudioError, FfmpegError True]
     (init (playVideoAscii_config 80 (Some ''standard'') True False)) = Inl UncaughtException \<and>
   frameSize (playVideoAscii_config 3 name tty win) = 0 \<and>
   run (playVideoAscii_config 3 name tty win) (Data chunk # FfmpegClose # evs)
     (init (playVideoAscii_config 3 name tty win)) = Inl NeverReturns"
proof -
  have h: "height_of 3 = 0" using height_of_exact [of 3] by simp
  have "int (frameSize_of 3 0) = 3 * 0 * 3" by (rule frameSize_of_exact) simp_all
  then have f: "frameSize (playVideoAscii_config 3 name tty win) = 0"
    by (simp add: playVideoAscii_config_def h)
  have d: "dispatch cfg AudioError s = Inl UncaughtException" for cfg s
    by (simp add: dispatch_def)
  show ?thesis using f by (simp add: d assembleLoop_diverges)
qed

text \<open>
  Claim C8. In every session the renderer hides the cursor once if a frame has been rendered
  and never otherwise, and it clears the screen as often (the teardown clears the screen once
  more when it runs). Rendering with the first-frame flag set performs the clear and the
  hide and then writes the frame text; rendering with the flag reset writes the frame text
  only, and the text has the same form in both cases.
\<close>

theorem first_frame_setup_once:
  "(run cfg evs (init cfg) = Inr s \<longrightarrow>
      count_list (out s) (StdoutWrite hideCursor) = (if frameCount s = 0 then 0 else 1) \<and>
      count_list (out s) ConsoleClear =
        (if frameCount s = 0 then 0 else 1) + (if cleanedUp s then 1 else 0)) \<and>
   (firstFrame s0 \<longrightarrow>
      out (renderFrame cfg f s0) =
        out s0 @ [ConsoleClear, StdoutWrite hideCursor, StdoutWrite (renderText cfg f)]) \<and>
   (\<not> firstFrame s1 \<longrightarrow>
      out (renderFrame cfg f s1) = out s1 @ [StdoutWrite (renderText cfg f)]) \<and>
   \<not> firstFrame (renderFrame cfg f s0)"
  using effects_inv_run [of cfg evs s]
  by (simp add: effects_inv_def renderFrame_out renderFrame_fields)

theorem first_frame_setup_once_witness:
  "(\<exists>s. run (playVideoAscii_config 4 (Some ''standard'') True False)
           [Data (replicate 24 0), KeyPress [0x51], Immediate]
           (init (playVideoAscii_config 4 (Some ''standard'') True False)) = Inr s \<and>
        frameCount s = 2 \<and> cleanedUp s \<and>
        count_list (out s) (StdoutWrite hideCursor) = 1 \<and>
        count_list (out s) ConsoleClear = 2) \<and>
   firstFrame (init (playVideoAscii_config 4 (Some ''standard'') True False)) \<and>
   out (renderFrame (playVideoAscii_config 4 (Some ''standard'') True False) (replicate 12 0)
          (init (playVideoAscii_config 4 (Some ''standard'') True False))) =
     out (init (playVideoAscii_config 4 (Some ''standard'') True False)) @
       [ConsoleClear, StdoutWrite hideCursor,
        StdoutWrite (renderText (playVideoAscii_config 4 (Some ''standard'') True False) (replicate 12 0))] \<and>
   \<not> firstFrame (renderFrame (playVideoAscii_config 4 (Some ''standard'') True False) (replicate 12 0)
          (init (playVideoAscii_config 4 (Some ''standard'') True False))) \<and>
   out (renderFrame (playVideoAscii_config 4 (Some ''standard'') True False) (replicate 12 0)
          (renderFrame (playVideoAscii_config 4 (Some ''standard'') True False) (replicate 12 0)
             (init (playVideoAscii_config 4 (Some ''standard'') True False)))) =
     out (renderFrame (playVideoAscii_config 4 (Some ''standard'') True False) (replicate 12 0)
            (init (playVideoAscii_config 4 (Some ''standard'') True False))) @
       [StdoutWrite (renderText (playVideoAscii_config 4 (Some ''standard'') True False) (replicate 12 0))]"
proof -
  let ?cfg = "playVideoAscii_config 4 (Some ''standard'') True False"
  let ?evs = "[Data (replicate 24 0), KeyPress [0x51], Immediate]"
  let ?f = "replicate 12 (0::byte)"
  from example_session obtain s where r: "run ?cfg ?evs (init ?cfg) = Inr s"
    and fc: "frameCount s = 2" and cu: "cleanedUp s" by simp
  note t = first_frame_setup_once [of ?cfg ?evs s "init ?cfg" ?f "renderFrame ?cfg ?f (init ?cfg)"]
  have h1: "firstFrame (init ?cfg)" by (simp add: init_def)
  from t have h2: "\<not> firstFrame (renderFrame ?cfg ?f (init ?cfg))" by blast
  from t r fc cu have c1: "count_list (out s) (StdoutWrite hideCursor) = 1 \<and>
        count_list (out s) ConsoleClear = 2" by simp
  from t h1 have c2: "out (renderFrame ?cfg ?f (init ?cfg)) =
     out (init ?cfg) @ [ConsoleClear, StdoutWrite hideCursor, StdoutWrite (renderText ?cfg ?f)]"
    by blast
  from t h2 have c3: "out (renderFrame ?cfg ?f (renderFrame ?cfg ?f (init ?cfg))) =
     out (renderFrame ?cfg ?f (init ?cfg)) @ [StdoutWrite (renderText ?cfg ?f)]" by blast
  from r fc cu c1 h1 c2 h2 c3 show ?thesis by blast
qed

text \<open>
  Claim C1 says that no frame is rendered once the cancel key has started teardown. In this
  session a chunk with two frames arrives, the first frame is rendered and a render step is
  scheduled for the second; the key \<open>Q\<close> then runs teardown, which neither empties the queue
  nor cancels the scheduled step. The first equation is the state after the key: teardown has
  run, both subprocesses have been killed, the timer is pending, and one frame is still
  queued with its render step pending. The second is the state after that step: the queued
  frame has been rendered, and the write of its text is the last effect, after the
  teardown's clearing of the screen.
\<close>

theorem frame_rendered_after_cancel:
  "run (playVideoAscii_config 4 (Some ''standard'') True False)
        [Data (replicate 24 0), KeyPress [0x51]]
        (init (playVideoAscii_config 4 (Some ''standard'') True False)) =
   Inr \<lparr>buffer = [], firstFrame = False, frameCount = 1, frameQueue = [replicate 12 0],
         isProcessing = False, cleanedUp = True, ffmpegKilled = True, audioKilled = True,
         keyListener = False, immediates = 1, timers = 1, resolved = False,
         assembled = [replicate 12 0, replicate 12 0],
         out = [SetRawMode True, StdinResume, ConsoleClear, StdoutWrite hideCursor,
                StdoutWrite (renderText (playVideoAscii_config 4 (Some ''standard'') True False)
                               (replicate 12 0)),
                SetRawMode False, StdinPause, RemoveKeyListener, Kill Ffmpeg, Kill AudioPlayer,
                StdoutWrite showCursor, ConsoleClear]\<rparr> \<and>
   run (playVideoAscii_config 4 (Some ''standard'') True False)
        [Data (replicate 24 0), KeyPress [0x51], Immediate]
        (init (playVideoAscii_config 4 (Some ''standard'') True False)) =
   Inr \<lparr>buffer = [], firstFrame = False, frameCount = 2, frameQueue = [],
         isProcessing = False, cleanedUp = True, ffmpegKilled = True, audioKilled = True,
         keyListener = False, immediates = 0, timers = 1, resolved = False,
         assembled = [replicate 12 0, replicate 12 0],
         out = [SetRawMode True, StdinResume, ConsoleClear, StdoutWrite hideCursor,
                StdoutWrite (renderText (playVideoAscii_config 4 (Some ''standard'') True False)
                               (replicate 12 0)),
                SetRawMode False, StdinPause, RemoveKeyListener, Kill Ffmpeg, Kill AudioPlayer,
                StdoutWrite showCursor, ConsoleClear,
                StdoutWrite (renderText (playVideoAscii_config 4 (Some ''standard'') True False)
                               (replicate 12 0))]\<rparr>"
  unfolding config_4 by (simp add: session_simps assembleLoop_eq two_black_frames)

end
